theory Spec2Isabelle
  imports Complex_Main "HOL-Library.Char_ord" "HOL-Library.List_Lexorder" "HOL-Library.AList"
begin

section \<open>Errors raised by the report generator\<close>

text \<open>
  The script \<^verbatim>\<open>tools/generate_dataset_docs.py\<close> is one top-level control flow; every
  exception it can raise inside the phases modelled here ends the run.  Each is a
  constructor of \<open>error\<close>.  Python raises the class \<^verbatim>\<open>TypeError\<close> both when it iterates
  \<^verbatim>\<open>None\<close> and in the explicit \<^verbatim>\<open>raise TypeError("fields not found: ...")\<close>; the two are
  kept apart here because they differ in message and in the line that raises.
  \<open>Pattern_not_modelled\<close> is not a Python exception: it marks a regular expression
  outside the fragment of \<^verbatim>\<open>re\<close> syntax that this development interprets.
\<close>

datatype error =
    Re_error                    \<comment> \<open>\<^verbatim>\<open>re.error\<close>, e.g. "nothing to repeat"\<close>
  | ValueError_unpack           \<comment> \<open>\<^verbatim>\<open>a, b = s.split("|")\<close> with other than two parts\<close>
  | TypeError_None_not_iterable \<comment> \<open>\<^verbatim>\<open>for f in t.fields\<close> with \<^verbatim>\<open>t.fields is None\<close>\<close>
  | TypeError_fields_not_found  \<comment> \<open>the explicit \<^verbatim>\<open>raise TypeError\<close> of line 268\<close>
  | ZeroDivisionError           \<comment> \<open>\<^verbatim>\<open>x / 0\<close>\<close>
  | Pattern_not_modelled

section \<open>The fragment of Python regular expressions in use\<close>

text \<open>
  The script calls \<^verbatim>\<open>re.match(pattern, string)\<close> with three kinds of pattern: the fixed
  version pattern \<^verbatim>\<open>^(.+)_([0-9]+[0-9a-zA-Z]*)\<close>, and a table or column format of the
  configuration in which every \<^verbatim>\<open>*\<close> has been replaced by \<^verbatim>\<open>.*\<close>.  The fragment
  interpreted here is: literal characters, \<^verbatim>\<open>.\<close> (any character but newline), character
  sets \<^verbatim>\<open>[a-b...]\<close> of ranges and single characters, unnested capture groups, a leading
  \<^verbatim>\<open>^\<close>, and one greedy quantifier \<^verbatim>\<open>*\<close>, \<^verbatim>\<open>+\<close> or \<^verbatim>\<open>?\<close> after a one-character
  atom.  A quantifier with nothing before it, and an unbalanced parenthesis, are
  Python's \<^verbatim>\<open>re.error\<close>.  Everything else is answered with \<open>Pattern_not_modelled\<close>.
  A string is a list of 8-bit characters, which is what the table and column names
  of the warehouse are made of.
\<close>

datatype atom = Lit char | AnyChar | CharSet "(char \<times> char) list"

datatype quant = One | Star | Plus | Opt

datatype item = Rep atom quant | GOpen | GClose

fun atom_ok :: "atom \<Rightarrow> char \<Rightarrow> bool" where
  "atom_ok (Lit a) c = (a = c)"
| "atom_ok AnyChar c = (c \<noteq> CHR 0x0A)"
| "atom_ok (CharSet rs) c = (\<exists>r \<in> set rs. fst r \<le> c \<and> c \<le> snd r)"

text \<open>
  The matcher is the backtracking search of \<^verbatim>\<open>re\<close>, greedy: a starred atom first takes
  one more character and only when the rest then fails gives it back.  The result is
  the list of positions at which the group parentheses were passed, in pattern order;
  \<open>None\<close> is Python's \<^verbatim>\<open>None\<close> (no match at the start of the string).
\<close>

fun rx_run :: "item list \<Rightarrow> string \<Rightarrow> nat \<Rightarrow> nat list option" where
  "rx_run [] s n = Some []"
| "rx_run (GOpen # r) s n = map_option (Cons n) (rx_run r s n)"
| "rx_run (GClose # r) s n = map_option (Cons n) (rx_run r s n)"
| "rx_run (Rep a One # r) [] n = None"
| "rx_run (Rep a One # r) (c # cs) n = (if atom_ok a c then rx_run r cs (Suc n) else None)"
| "rx_run (Rep a Plus # r) [] n = None"
| "rx_run (Rep a Plus # r) (c # cs) n =
     (if atom_ok a c then rx_run (Rep a Star # r) cs (Suc n) else None)"
| "rx_run (Rep a Star # r) [] n = rx_run r [] n"
| "rx_run (Rep a Star # r) (c # cs) n =
     (if atom_ok a c
      then (case rx_run (Rep a Star # r) cs (Suc n) of
              Some g \<Rightarrow> Some g
            | None \<Rightarrow> rx_run r (c # cs) n)
      else rx_run r (c # cs) n)"
| "rx_run (Rep a Opt # r) [] n = rx_run r [] n"
| "rx_run (Rep a Opt # r) (c # cs) n =
     (if atom_ok a c
      then (case rx_run r cs (Suc n) of
              Some g \<Rightarrow> Some g
            | None \<Rightarrow> rx_run r (c # cs) n)
      else rx_run r (c # cs) n)"

text \<open>Parsing a character set after its opening bracket, up to the closing one.\<close>

fun rx_set :: "string \<Rightarrow> (char \<times> char) list \<Rightarrow> ((char \<times> char) list \<times> string) option" where
  "rx_set [] acc = None"
| "rx_set (c # cs) acc =
     (if c = CHR '']'' then (if acc = [] then None else Some (rev acc, cs))
      else if c = CHR 0x5C \<or> c = CHR ''^'' \<or> c = CHR ''['' \<or> c = CHR ''-'' then None
      else (case cs of
              d # e # r \<Rightarrow>
                (if d = CHR ''-'' \<and> e \<noteq> CHR '']''
                 then (if e = CHR 0x5C \<or> e = CHR ''['' \<or> e < c then None
                       else rx_set r ((c, e) # acc))
                 else rx_set cs ((c, c) # acc))
            | _ \<Rightarrow> rx_set cs ((c, c) # acc)))"

definition quant_of :: "char \<Rightarrow> quant" where
  "quant_of c = (if c = CHR ''*'' then Star else if c = CHR ''+'' then Plus else Opt)"

definition open_groups :: "item list \<Rightarrow> int" where
  "open_groups acc = int (length (filter (\<lambda>i. i = GOpen) acc)) - int (length (filter (\<lambda>i. i = GClose) acc))"

function rx_parse :: "string \<Rightarrow> item list \<Rightarrow> error + item list" where
  "rx_parse [] acc = (if open_groups acc = 0 then Inr (rev acc) else Inl Re_error)"
| "rx_parse (c # cs) acc =
     (if c = CHR ''*'' \<or> c = CHR ''+'' \<or> c = CHR ''?'' then
        (case acc of
           [] \<Rightarrow> Inl Re_error
         | Rep a One # acc' \<Rightarrow> rx_parse cs (Rep a (quant_of c) # acc')
         | Rep a q # acc' \<Rightarrow> Inl Pattern_not_modelled
         | GOpen # acc' \<Rightarrow> (if c = CHR ''?'' then Inl Pattern_not_modelled else Inl Re_error)
         | GClose # acc' \<Rightarrow> Inl Pattern_not_modelled)
      else if c = CHR ''.'' then rx_parse cs (Rep AnyChar One # acc)
      else if c = CHR ''('' then
        (if open_groups acc = 0 then rx_parse cs (GOpen # acc) else Inl Pattern_not_modelled)
      else if c = CHR '')'' then
        (if open_groups acc = 0 then Inl Re_error else rx_parse cs (GClose # acc))
      else if c = CHR ''['' then
        (case rx_set cs [] of
           None \<Rightarrow> Inl Pattern_not_modelled
         | Some (rs, rest) \<Rightarrow>
             rx_parse rest (Rep (CharSet rs) One # acc))
      else if c = CHR ''^'' then
        (if acc = [] then rx_parse cs acc else Inl Pattern_not_modelled)
      else if c = CHR 0x5C \<or> c = CHR ''{'' \<or> c = CHR ''}'' \<or> c = CHR '']''
              \<or> c = CHR ''$'' \<or> c = CHR ''|'' then Inl Pattern_not_modelled
      else rx_parse cs (Rep (Lit c) One # acc))"
  by pat_completeness auto

lemma rx_set_shorter: "rx_set s acc = Some (rs, rest) \<Longrightarrow> length rest < length s"
proof (induction s acc rule: rx_set.induct)
  case (1 acc)
  then show ?case by simp
next
  case (2 c cs acc)
  show ?case
  proof (cases "c = CHR '']''")
    case True
    with "2.prems" show ?thesis by (simp split: if_splits)
  next
    case False
    note nc = False
    show ?thesis
    proof (cases "c = CHR 0x5C \<or> c = CHR ''^'' \<or> c = CHR ''['' \<or> c = CHR ''-''")
      case True
      with nc "2.prems" show ?thesis by simp
    next
      case False
      note ns = False
      show ?thesis
      proof (cases cs)
        case Nil
        with nc ns "2.prems" show ?thesis by simp
      next
        case (Cons d ds)
        note cs1 = Cons
        show ?thesis
        proof (cases ds)
          case Nil
          with nc ns cs1 "2.prems" "2.IH"(2)[OF nc ns cs1 Nil] show ?thesis by simp
        next
          case (Cons e r)
          show ?thesis
          proof (cases "d = CHR ''-'' \<and> e \<noteq> CHR '']''")
            case True
            with nc ns cs1 Cons "2.prems" "2.IH"(3)[OF nc ns cs1 Cons True] show ?thesis
              by (simp split: if_splits)
          next
            case False
            with nc ns cs1 Cons "2.prems" "2.IH"(4)[OF nc ns cs1 Cons False] show ?thesis
              by (simp split: if_splits)
          qed
        qed
      qed
    qed
  qed
qed

termination rx_parse
  by (relation "measure (\<lambda>(s, acc). length s)") (auto dest: rx_set_shorter)

text \<open>\<^verbatim>\<open>re.match(pattern, string)\<close>: compile the pattern, then match at the start.\<close>

definition re_match :: "string \<Rightarrow> string \<Rightarrow> error + nat list option" where
  "re_match pattern s =
     (case rx_parse pattern [] of Inl e \<Rightarrow> Inl e | Inr items \<Rightarrow> Inr (rx_run items s 0))"

text \<open>\<^verbatim>\<open>str.replace("*", ".*")\<close>.\<close>

fun star_to_dotstar :: "string \<Rightarrow> string" where
  "star_to_dotstar [] = []"
| "star_to_dotstar (c # cs) =
     (if c = CHR ''*'' then CHR ''.'' # CHR ''*'' # star_to_dotstar cs
      else c # star_to_dotstar cs)"

section \<open>Version detection\<close>

text \<open>
  Lines 155--163: \<^verbatim>\<open>m = re.match("^(.+)_([0-9]+[0-9a-zA-Z]*)", table.name)\<close>, with
  \<^verbatim>\<open>m.group(1)\<close> the base and \<^verbatim>\<open>m.group(2)\<close> the version.
\<close>

definition version_pattern :: string where
  "version_pattern = ''^(.+)_([0-9]+[0-9a-zA-Z]*)''"

definition version_match :: "string \<Rightarrow> (string \<times> string) option" where
  "version_match name =
     (case re_match version_pattern name of
        Inr (Some [o1, c1, o2, c2]) \<Rightarrow>
          Some (take (c1 - o1) (drop o1 name), take (c2 - o2) (drop o2 name))
      | _ \<Rightarrow> None)"

section \<open>The object graph\<close>

text \<open>
  The classes built by \<^verbatim>\<open>namedtuple\<close> (lines 77--108) have every attribute \<^verbatim>\<open>None\<close>
  until it is assigned.  An attribute that the script tests for truth only
  (\<^verbatim>\<open>old_version\<close>) is a \<open>bool\<close>, one that it may find unassigned is an \<open>option\<close>.
  The back-references \<^verbatim>\<open>Field.table\<close>, \<^verbatim>\<open>Join.from_field\<close> and \<^verbatim>\<open>Join.to_field\<close> are
  kept as names.  The attributes of a table and of a dataset that only the templates
  read (descriptions, dates, row and byte counts, the grouped row counts of lines
  210--218) are left out: no statement below depends on them.
\<close>

record field =
  f_name :: string
  f_table :: string
  f_description :: string
  f_type :: string
  f_mode :: string

record table =
  t_name :: string
  t_version :: "string option"
  t_dataset :: string
  t_fields :: "field list option"
  t_old_version :: bool

record dataset =
  d_name :: string
  d_tables :: "table list"

text \<open>\<^verbatim>\<open>datasets\<close> is an ordered dictionary; only \<^verbatim>\<open>datasets.values()\<close> is read after discovery.\<close>

type_synonym datasets = "dataset list"

section \<open>Detecting versions and marking older tables (lines 150--177)\<close>

text \<open>
  The two dictionaries \<^verbatim>\<open>latest_table_base\<close> and \<^verbatim>\<open>no_version_tables\<close> are association
  lists in insertion order, as Python dictionaries are.  Strings are compared with
  \<open>(<)\<close> on \<open>char list\<close>: lexicographic by character code, a proper prefix being smaller,
  which is Python's \<^verbatim>\<open><\<close> on \<^verbatim>\<open>str\<close>.
\<close>

record version_state =
  latest_table_base :: "(string \<times> string) list"
  no_version_tables :: "(string \<times> bool) list"

definition version_init :: version_state where
  "version_init = \<lparr>latest_table_base = [], no_version_tables = []\<rparr>"

text \<open>The body of the inner loop for one table: the new dictionaries and the table.\<close>

definition version_table :: "version_state \<Rightarrow> table \<Rightarrow> version_state \<times> table" where
  "version_table st t =
     (case version_match (t_name t) of
        None \<Rightarrow>
          (\<lparr>latest_table_base = AList.update (t_name t) (t_name t) (latest_table_base st),
            no_version_tables = AList.update (t_name t) True (no_version_tables st)\<rparr>, t)
      | Some (base, ver) \<Rightarrow>
          (let t' = t\<lparr>t_version := Some ver\<rparr> in
           (case map_of (latest_table_base st) base of
              None \<Rightarrow>
                (st\<lparr>latest_table_base := AList.update base (t_name t) (latest_table_base st)\<rparr>, t')
            | Some cur \<Rightarrow>
                (if cur < t_name t
                    \<and> \<not> (case map_of (no_version_tables st) base of None \<Rightarrow> False | Some b \<Rightarrow> b)
                 then (st\<lparr>latest_table_base := AList.update base (t_name t) (latest_table_base st)\<rparr>, t')
                 else (st, t')))))"

fun version_tables :: "version_state \<Rightarrow> table list \<Rightarrow> version_state \<times> table list" where
  "version_tables st [] = (st, [])"
| "version_tables st (t # ts) =
     (let (st1, t') = version_table st t;
          (st2, ts') = version_tables st1 ts
      in (st2, t' # ts'))"

fun version_datasets :: "version_state \<Rightarrow> datasets \<Rightarrow> version_state \<times> datasets" where
  "version_datasets st [] = (st, [])"
| "version_datasets st (d # ds) =
     (let (st1, ts') = version_tables st (d_tables d);
          (st2, ds') = version_datasets st1 ds
      in (st2, d\<lparr>d_tables := ts'\<rparr> # ds'))"

text \<open>Lines 170--172: the keys of \<^verbatim>\<open>latest_tables\<close> are the values of \<^verbatim>\<open>latest_table_base\<close>.\<close>

definition latest_tables :: "version_state \<Rightarrow> string list" where
  "latest_tables st = map snd (latest_table_base st)"

text \<open>Lines 174--177.\<close>

definition mark_old_table :: "string list \<Rightarrow> table \<Rightarrow> table" where
  "mark_old_table latest t =
     (if t_name t \<notin> set latest then t\<lparr>t_old_version := True\<rparr> else t)"

definition mark_old :: "string list \<Rightarrow> datasets \<Rightarrow> datasets" where
  "mark_old latest ds = map (\<lambda>d. d\<lparr>d_tables := map (mark_old_table latest) (d_tables d)\<rparr>) ds"

definition resolve_versions :: "datasets \<Rightarrow> datasets" where
  "resolve_versions ds =
     (let (st, ds') = version_datasets version_init ds
      in mark_old (latest_tables st) ds')"

text \<open>
  A table as discovery leaves it (line 146): a name and its dataset, nothing else
  assigned.
\<close>

definition discovered :: "string \<Rightarrow> string \<Rightarrow> table" where
  "discovered ds_nice n =
     \<lparr>t_name = n, t_version = None, t_dataset = ds_nice, t_fields = None, t_old_version = False\<rparr>"

definition all_tables :: "datasets \<Rightarrow> table list" where
  "all_tables ds = concat (map d_tables ds)"

section \<open>Loading schemas (lines 179--203)\<close>

text \<open>
  A schema field as \<^verbatim>\<open>bq show\<close> returns it: a JSON object with a \<^verbatim>\<open>name\<close>, optional
  \<^verbatim>\<open>description\<close>, \<^verbatim>\<open>type\<close> and \<^verbatim>\<open>mode\<close>, and optional nested \<^verbatim>\<open>fields\<close>.
\<close>

datatype schema_field =
  Schema_field (s_name: string) (s_description: "string option") (s_type: "string option")
    (s_mode: "string option") (s_fields: "schema_field list option")

text \<open>\<^verbatim>\<open>dict.get(key, "")\<close>.\<close>

definition get_or_empty :: "string option \<Rightarrow> string" where
  "get_or_empty v = (case v of None \<Rightarrow> [] | Some x \<Rightarrow> x)"

text \<open>
  \<^verbatim>\<open>add_fields(parent, fields)\<close> appends to \<^verbatim>\<open>table_fields\<close>; the function below returns
  what one call appends, in order.  \<^verbatim>\<open>if parent:\<close> is false for the empty string.
\<close>

fun add_fields :: "string \<Rightarrow> string \<Rightarrow> schema_field list \<Rightarrow> field list" where
  "add_fields tbl parent [] = []"
| "add_fields tbl parent (Schema_field n d ty m sub # rest) =
     (let name = (if parent \<noteq> [] then parent @ ''.'' @ n else n) in
      \<lparr>f_name = name, f_table = tbl, f_description = get_or_empty d,
        f_type = get_or_empty ty, f_mode = get_or_empty m\<rparr>
      # (case sub of None \<Rightarrow> [] | Some children \<Rightarrow> add_fields tbl name children)
      @ add_fields tbl parent rest)"

text \<open>
  The warehouse is a parameter: \<open>show\<close> gives the \<^verbatim>\<open>schema.fields\<close> of the table of
  that name.  An old table is skipped by \<^verbatim>\<open>continue\<close>, so its \<open>t_fields\<close> stay \<open>None\<close>.
\<close>

definition load_table :: "(string \<Rightarrow> schema_field list) \<Rightarrow> table \<Rightarrow> table" where
  "load_table show t =
     (if t_old_version t then t
      else t\<lparr>t_fields := Some (add_fields (t_name t) [] (show (t_name t)))\<rparr>)"

definition load_datasets :: "(string \<Rightarrow> schema_field list) \<Rightarrow> datasets \<Rightarrow> datasets" where
  "load_datasets show ds = map (\<lambda>d. d\<lparr>d_tables := map (load_table show) (d_tables d)\<rparr>) ds"

section \<open>Looking a field up (lines 112--119)\<close>

fun find_in_fields :: "string \<Rightarrow> field list \<Rightarrow> field option" where
  "find_in_fields column [] = None"
| "find_in_fields column (f # fs) =
     (if column = f_name f then Some f else find_in_fields column fs)"

fun find_in_tables :: "string \<Rightarrow> string \<Rightarrow> table list \<Rightarrow> error + field option" where
  "find_in_tables table_name column [] = Inr None"
| "find_in_tables table_name column (t # ts) =
     (if t_name t = table_name then
        (case t_fields t of
           None \<Rightarrow> Inl TypeError_None_not_iterable
         | Some fs \<Rightarrow>
             (case find_in_fields column fs of
                Some f \<Rightarrow> Inr (Some f)
              | None \<Rightarrow> find_in_tables table_name column ts))
      else find_in_tables table_name column ts)"

fun find_field :: "datasets \<Rightarrow> string \<Rightarrow> string \<Rightarrow> error + field option" where
  "find_field [] table_name column = Inr None"
| "find_field (d # ds) table_name column =
     (case find_in_tables table_name column (d_tables d) of
        Inl e \<Rightarrow> Inl e
      | Inr (Some f) \<Rightarrow> Inr (Some f)
      | Inr None \<Rightarrow> find_field ds table_name column)"

section \<open>Wildcards in join groups (lines 221--242)\<close>

text \<open>\<^verbatim>\<open>s.split(sep)\<close> for a one-character separator, and unpacking into two names.\<close>

fun split_on :: "char \<Rightarrow> string \<Rightarrow> string list" where
  "split_on sep [] = [[]]"
| "split_on sep (c # cs) =
     (if c = sep then [] # split_on sep cs
      else (case split_on sep cs of
              p # ps \<Rightarrow> (c # p) # ps
            | [] \<Rightarrow> [[c]]))"

definition unpack2 :: "string list \<Rightarrow> error + (string \<times> string)" where
  "unpack2 parts = (case parts of [a, b] \<Rightarrow> Inr (a, b) | _ \<Rightarrow> Inl ValueError_unpack)"

definition split_bar :: "string \<Rightarrow> error + (string \<times> string)" where
  "split_bar s = unpack2 (split_on (CHR ''|'') s)"

text \<open>\<^verbatim>\<open>if re.match(fmt.replace("*", ".*"), name)\<close>: the truth value of the match object.\<close>

definition wild_match :: "string \<Rightarrow> string \<Rightarrow> error + bool" where
  "wild_match fmt name =
     (case re_match (star_to_dotstar fmt) name of
        Inl e \<Rightarrow> Inl e
      | Inr m \<Rightarrow> Inr (m \<noteq> None))"

text \<open>The three nested loops that fill \<^verbatim>\<open>matches\<close>, each returning what it appends.\<close>

fun match_fields :: "string \<Rightarrow> string \<Rightarrow> field list \<Rightarrow> error + string list" where
  "match_fields column_fmt tname [] = Inr []"
| "match_fields column_fmt tname (f # fs) =
     (case wild_match column_fmt (f_name f) of
        Inl e \<Rightarrow> Inl e
      | Inr hit \<Rightarrow>
          (case match_fields column_fmt tname fs of
             Inl e \<Rightarrow> Inl e
           | Inr others \<Rightarrow> Inr ((if hit then [tname @ ''|'' @ f_name f] else []) @ others)))"

fun match_tables :: "string \<Rightarrow> string \<Rightarrow> table list \<Rightarrow> error + string list" where
  "match_tables table_fmt column_fmt [] = Inr []"
| "match_tables table_fmt column_fmt (t # ts) =
     (case wild_match table_fmt (t_name t) of
        Inl e \<Rightarrow> Inl e
      | Inr hit \<Rightarrow>
          (if \<not> hit \<or> t_old_version t then match_tables table_fmt column_fmt ts
           else (case t_fields t of
                   None \<Rightarrow> Inl TypeError_None_not_iterable
                 | Some fs \<Rightarrow>
                     (case match_fields column_fmt (t_name t) fs of
                        Inl e \<Rightarrow> Inl e
                      | Inr here \<Rightarrow>
                          (case match_tables table_fmt column_fmt ts of
                             Inl e \<Rightarrow> Inl e
                           | Inr others \<Rightarrow> Inr (here @ others))))))"

fun match_datasets :: "string \<Rightarrow> string \<Rightarrow> datasets \<Rightarrow> error + string list" where
  "match_datasets table_fmt column_fmt [] = Inr []"
| "match_datasets table_fmt column_fmt (d # ds) =
     (case match_tables table_fmt column_fmt (d_tables d) of
        Inl e \<Rightarrow> Inl e
      | Inr here \<Rightarrow>
          (case match_datasets table_fmt column_fmt ds of
             Inl e \<Rightarrow> Inl e
           | Inr others \<Rightarrow> Inr (here @ others)))"

text \<open>
  The \<^verbatim>\<open>while i < len(join_group)\<close> loop, with the list it mutates as an argument:
  \<^verbatim>\<open>pop(i)\<close> and the \<^verbatim>\<open>insert(i, v); i += 1\<close> of every match put the matches where the
  entry was and leave \<open>i\<close> behind them.
\<close>

function expand_loop :: "datasets \<Rightarrow> nat \<Rightarrow> string list \<Rightarrow> error + string list" where
  "expand_loop ds i join_group =
     (if i < length join_group then
        (if CHR ''*'' \<notin> set (join_group ! i) then expand_loop ds (i + 1) join_group
         else (case split_bar (join_group ! i) of
                 Inl e \<Rightarrow> Inl e
               | Inr (table_fmt, column_fmt) \<Rightarrow>
                   (case match_datasets table_fmt column_fmt ds of
                      Inl e \<Rightarrow> Inl e
                    | Inr matches \<Rightarrow>
                        expand_loop ds (i + length matches)
                          (take i join_group @ matches @ drop (Suc i) join_group))))
      else Inr join_group)"
  by pat_completeness auto
termination
  by (relation "measure (\<lambda>(ds, i, g). length g - i)") auto

definition expand_group :: "datasets \<Rightarrow> string list \<Rightarrow> error + string list" where
  "expand_group ds join_group = expand_loop ds 0 join_group"

text \<open>\<^verbatim>\<open>for join_group in join_config.values()\<close>: every group in turn, the first error ends the run.\<close>

fun expand_config :: "datasets \<Rightarrow> (string \<times> string list) list \<Rightarrow> error + (string \<times> string list) list" where
  "expand_config ds [] = Inr []"
| "expand_config ds ((name, g) # rest) =
     (case expand_group ds g of
        Inl e \<Rightarrow> Inl e
      | Inr g' \<Rightarrow>
          (case expand_config ds rest of
             Inl e \<Rightarrow> Inl e
           | Inr rest' \<Rightarrow> Inr ((name, g') # rest')))"

section \<open>Join statistics (lines 298--322)\<close>

text \<open>
  A row of the query result, after \<^verbatim>\<open>int(row["cnt"])\<close> and \<^verbatim>\<open>int(row["second_cnt"])\<close>.
  Python's \<^verbatim>\<open>/\<close> on two integers is the quotient rounded to a float; the model keeps
  the exact quotient, a rational, and raises on a zero divisor as Python does.
\<close>

record row =
  cnt :: int
  second_cnt :: int
  grouped :: string
  sample_value :: "string list"

record join_stat =
  js_percent :: rat
  js_num_rows :: int
  js_key :: string
  js_sample_value :: "string list"

definition py_truediv :: "int \<Rightarrow> int \<Rightarrow> error + rat" where
  "py_truediv a b = (if b = 0 then Inl ZeroDivisionError else Inr (of_int a / of_int b))"

record stats_acc =
  total_rows :: int
  joined_rows :: int
  join_stats :: "(string \<times> join_stat) list"

text \<open>
  The \<^verbatim>\<open>for row in result\<close> loop.  \<open>by_group\<close> is the truth of \<^verbatim>\<open>group_by\<close>; without it
  every row is stored under the key \<^verbatim>\<open>""\<close> with the label \<^verbatim>\<open>"all"\<close>.
\<close>

fun stats_loop :: "bool \<Rightarrow> row list \<Rightarrow> stats_acc \<Rightarrow> error + stats_acc" where
  "stats_loop by_group [] acc = Inr acc"
| "stats_loop by_group (r # rs) acc =
     (let total = total_rows acc + cnt r;
          joined = joined_rows acc + second_cnt r
      in (case py_truediv (second_cnt r) (cnt r) of
            Inl e \<Rightarrow> Inl e
          | Inr p \<Rightarrow>
              stats_loop by_group rs
                \<lparr>total_rows = total, joined_rows = joined,
                  join_stats =
                    AList.update (if by_group then grouped r else [])
                      \<lparr>js_percent = p, js_num_rows = second_cnt r,
                        js_key = (if by_group then grouped r else ''all''),
                        js_sample_value = sample_value r\<rparr>
                      (join_stats acc)\<rparr>))"

record join_result =
  jr_percent :: rat
  jr_num_rows :: int
  jr_join_stats :: "(string \<times> join_stat) list"

definition join_statistics :: "bool \<Rightarrow> row list \<Rightarrow> error + join_result" where
  "join_statistics by_group result =
     (case stats_loop by_group result \<lparr>total_rows = 0, joined_rows = 0, join_stats = []\<rparr> of
        Inl e \<Rightarrow> Inl e
      | Inr acc \<Rightarrow>
          (case py_truediv (joined_rows acc) (total_rows acc) of
             Inl e \<Rightarrow> Inl e
           | Inr p \<Rightarrow>
               Inr \<lparr>jr_percent = p, jr_num_rows = joined_rows acc,
                    jr_join_stats = join_stats acc\<rparr>))"

section \<open>Enumerating the joins of each group (lines 244--322)\<close>

text \<open>
  What a query is made from; the SQL text is a function of these five values.  The
  warehouse is again a parameter, \<open>run_query\<close>.
\<close>

record query =
  q_first_table :: string
  q_first_column :: string
  q_second_table :: string
  q_second_column :: string
  q_group_by :: "string option"

record join =
  j_name :: string
  j_from_field :: field
  j_to_field :: field
  j_percent :: rat
  j_num_rows :: int
  j_join_stats :: "(string \<times> join_stat) list"
  j_sql :: query

record env =
  e_datasets :: datasets
  e_group_config :: "(string \<times> string) list"
  e_run_query :: "query \<Rightarrow> row list"

text \<open>
  The state the nested loops change: the set \<^verbatim>\<open>join_done\<close>, and the \<^verbatim>\<open>Join\<close> objects in
  the order of their creation.  The lists \<^verbatim>\<open>from_joins\<close> and \<^verbatim>\<open>to_joins\<close> that the loop
  appends to are the sublists of \<open>joins\<close> with that from-field, to-field or from-table.
\<close>

record pair_state =
  join_done :: "string list"
  joins :: "join list"

definition startswith_plus :: "string \<Rightarrow> bool" where
  "startswith_plus s = (case s of [] \<Rightarrow> False | c # _ \<Rightarrow> c = CHR ''+'')"

definition lstrip_plus :: "string \<Rightarrow> string" where
  "lstrip_plus s = dropWhile (\<lambda>c. c = CHR ''+'') s"

text \<open>\<^verbatim>\<open>if not group_by\<close>: no entry, or the empty string.\<close>

definition truthy :: "string option \<Rightarrow> bool" where
  "truthy v = (case v of None \<Rightarrow> False | Some x \<Rightarrow> x \<noteq> [])"

text \<open>The body of the inner loop for one pair of indices.\<close>

definition pair_body :: "env \<Rightarrow> string \<Rightarrow> string list \<Rightarrow> pair_state \<Rightarrow> nat \<Rightarrow> nat \<Rightarrow> error + pair_state" where
  "pair_body ev join_name join_group st i j =
     (if j = i then Inr st
      else
       (case split_bar (join_group ! i) of
          Inl e \<Rightarrow> Inl e
        | Inr (first_table0, first_column) \<Rightarrow>
       (case split_bar (join_group ! j) of
          Inl e \<Rightarrow> Inl e
        | Inr (second_table0, second_column) \<Rightarrow>
       (if \<not> startswith_plus first_table0 \<and> \<not> startswith_plus second_table0 then Inr st
        else
         (let first_table = lstrip_plus first_table0;
              second_table = lstrip_plus second_table0;
              key = first_table @ first_column @ second_table @ second_column
          in
           (if key \<in> set (join_done st) \<or> (first_table = second_table \<and> first_column = second_column)
            then Inr st
            else
             (case find_field (e_datasets ev) first_table first_column of
                Inl e \<Rightarrow> Inl e
              | Inr from_field \<Rightarrow>
             (case find_field (e_datasets ev) second_table second_column of
                Inl e \<Rightarrow> Inl e
              | Inr to_field \<Rightarrow>
             (case (from_field, to_field) of
                (Some ff, Some tf) \<Rightarrow>
                  (let group_by = map_of (e_group_config ev) first_table;
                       q = \<lparr>q_first_table = first_table, q_first_column = first_column,
                            q_second_table = second_table, q_second_column = second_column,
                            q_group_by = (if truthy group_by then group_by else None)\<rparr>
                   in
                    (case join_statistics (truthy group_by) (e_run_query ev q) of
                       Inl e \<Rightarrow> Inl e
                     | Inr r \<Rightarrow>
                         Inr \<lparr>join_done = key # join_done st,
                              joins = joins st @
                                [\<lparr>j_name = join_name, j_from_field = ff, j_to_field = tf,
                                  j_percent = jr_percent r, j_num_rows = jr_num_rows r,
                                  j_join_stats = jr_join_stats r, j_sql = q\<rparr>]\<rparr>))
              | _ \<Rightarrow> Inl TypeError_fields_not_found)))))))))"

text \<open>\<^verbatim>\<open>for j in range(len(join_group))\<close> and \<^verbatim>\<open>for i in range(len(join_group))\<close>.\<close>

fun inner_loop :: "env \<Rightarrow> string \<Rightarrow> string list \<Rightarrow> nat \<Rightarrow> nat list \<Rightarrow> pair_state \<Rightarrow> error + pair_state" where
  "inner_loop ev join_name join_group i [] st = Inr st"
| "inner_loop ev join_name join_group i (j # js) st =
     (case pair_body ev join_name join_group st i j of
        Inl e \<Rightarrow> Inl e
      | Inr st' \<Rightarrow> inner_loop ev join_name join_group i js st')"

fun outer_loop :: "env \<Rightarrow> string \<Rightarrow> string list \<Rightarrow> nat list \<Rightarrow> pair_state \<Rightarrow> error + pair_state" where
  "outer_loop ev join_name join_group [] st = Inr st"
| "outer_loop ev join_name join_group (i # is) st =
     (case inner_loop ev join_name join_group i [0 ..< length join_group] st of
        Inl e \<Rightarrow> Inl e
      | Inr st' \<Rightarrow> outer_loop ev join_name join_group is st')"

definition join_group_pairs :: "env \<Rightarrow> string \<Rightarrow> string list \<Rightarrow> pair_state \<Rightarrow> error + pair_state" where
  "join_group_pairs ev join_name join_group st =
     outer_loop ev join_name join_group [0 ..< length join_group] st"

text \<open>\<^verbatim>\<open>for join_name, join_group in join_config.items()\<close>, from an empty \<^verbatim>\<open>join_done\<close>.\<close>

fun all_groups :: "env \<Rightarrow> (string \<times> string list) list \<Rightarrow> pair_state \<Rightarrow> error + pair_state" where
  "all_groups ev [] st = Inr st"
| "all_groups ev ((join_name, join_group) # rest) st =
     (case join_group_pairs ev join_name join_group st of
        Inl e \<Rightarrow> Inl e
      | Inr st' \<Rightarrow> all_groups ev rest st')"

definition enumerate_joins :: "env \<Rightarrow> (string \<times> string list) list \<Rightarrow> error + pair_state" where
  "enumerate_joins ev join_config = all_groups ev join_config \<lparr>join_done = [], joins = []\<rparr>"


section \<open>Notions used in the statements\<close>

text \<open>
  The two character sets of the version pattern and the part of the pattern after
  the first group, as \<open>rx_parse\<close> returns them.
\<close>

definition version_digit :: atom where
  "version_digit = CharSet [(CHR ''0'', CHR ''9'')]"

definition version_alnum :: atom where
  "version_alnum = CharSet [(CHR ''0'', CHR ''9''), (CHR ''a'', CHR ''z''), (CHR ''A'', CHR ''Z'')]"

definition version_tail :: "item list" where
  "version_tail = [Rep (Lit (CHR ''_'')) One, GOpen, Rep version_digit Plus, Rep version_alnum Star, GClose]"

text \<open>
  Among the names discovered: those the version pattern does not match, and the
  version family of a base, the names whose first group is that base.
\<close>

definition no_version_names :: "string list \<Rightarrow> string set" where
  "no_version_names ns = set (filter (\<lambda>n. version_match n = None) ns)"

definition family :: "string \<Rightarrow> string list \<Rightarrow> string set" where
  "family k ns = set (filter (\<lambda>n. map_option fst (version_match n) = Some k) ns)"

text \<open>What the version loop maintains, after the names \<open>ns\<close> have been processed.\<close>

definition vinv :: "version_state \<Rightarrow> string list \<Rightarrow> bool" where
  "vinv st ns \<longleftrightarrow>
     distinct (map fst (latest_table_base st)) \<and>
     (\<forall>n. map_of (no_version_tables st) n = (if n \<in> no_version_names ns then Some True else None)) \<and>
     (\<forall>k. map_of (latest_table_base st) k =
            (if k \<in> no_version_names ns then Some k
             else if family k ns = {} then None
             else Some (Max (family k ns))))"


text \<open>
  The wildcard loop, entry by entry: a literal entry stays, a wildcard entry is
  replaced by its matches, and the first error ends the run.
\<close>

fun expand_entries :: "datasets \<Rightarrow> string list \<Rightarrow> error + string list" where
  "expand_entries ds [] = Inr []"
| "expand_entries ds (e # es) =
     (if CHR ''*'' \<notin> set e then
        (case expand_entries ds es of Inl x \<Rightarrow> Inl x | Inr r \<Rightarrow> Inr (e # r))
      else
        (case split_bar e of
           Inl x \<Rightarrow> Inl x
         | Inr (table_fmt, column_fmt) \<Rightarrow>
             (case match_datasets table_fmt column_fmt ds of
                Inl x \<Rightarrow> Inl x
              | Inr ms \<Rightarrow>
                  (case expand_entries ds es of Inl x \<Rightarrow> Inl x | Inr r \<Rightarrow> Inr (ms @ r)))))"


text \<open>
  A format is plain when it has none of the characters that \<^verbatim>\<open>re\<close> reads as syntax
  other than \<^verbatim>\<open>*\<close> and \<^verbatim>\<open>.\<close>.  For a plain format, \<open>glob\<close> says what the
  specification means by a prefix match: \<^verbatim>\<open>*\<close> stands for any sequence of characters
  (without a newline), \<^verbatim>\<open>.\<close> for any one character (not a newline), every other
  character for itself, and whatever follows the matched prefix is ignored.
  \<open>expected_matches\<close> lists, table by table and field by field, the references of the
  tables that are not old versions whose table name and field name match so.
\<close>

definition special_chars :: "char list" where
  "special_chars = [CHR ''+'', CHR ''?'', CHR ''('', CHR '')'', CHR ''['', CHR '']'', CHR ''^'',
                    CHR 0x5C, CHR ''{'', CHR ''}'', CHR ''$'', CHR ''|'']"

definition plain_format :: "string \<Rightarrow> bool" where
  "plain_format fmt \<longleftrightarrow> (\<forall>c \<in> set fmt. c \<notin> set special_chars)"

fun glob_items :: "string \<Rightarrow> item list" where
  "glob_items [] = []"
| "glob_items (c # cs) =
     (if c = CHR ''*'' then Rep AnyChar Star
      else if c = CHR ''.'' then Rep AnyChar One
      else Rep (Lit c) One) # glob_items cs"

fun glob :: "string \<Rightarrow> string \<Rightarrow> bool" where
  "glob [] s = True"
| "glob (p # ps) s =
     (if p = CHR ''*''
      then (\<exists>k \<in> set [0 ..< Suc (length s)]. CHR 0x0A \<notin> set (take k s) \<and> glob ps (drop k s))
      else (case s of
              [] \<Rightarrow> False
            | c # cs \<Rightarrow> (if p = CHR ''.'' then c \<noteq> CHR 0x0A else c = p) \<and> glob ps cs))"

definition fields_of :: "table \<Rightarrow> field list" where
  "fields_of t = (case t_fields t of None \<Rightarrow> [] | Some fs \<Rightarrow> fs)"

definition expected_matches :: "string \<Rightarrow> string \<Rightarrow> datasets \<Rightarrow> string list" where
  "expected_matches table_fmt column_fmt ds =
     concat (map (\<lambda>t. if \<not> t_old_version t \<and> glob table_fmt (t_name t)
                       then map (\<lambda>f. t_name t @ ''|'' @ f_name f)
                              (filter (\<lambda>f. glob column_fmt (f_name f)) (fields_of t))
                       else [])
              (all_tables ds))"

















section \<open>Example inputs\<close>


text \<open>One logical dataset holding the tables of the given names, as discovery leaves them.\<close>

definition one_dataset :: "string list \<Rightarrow> datasets" where
  "one_dataset ns = [\<lparr>d_name = ''d'', d_tables = map (discovered ''d'') ns\<rparr>]"

text \<open>A warehouse in which every table has the single column \<open>c\<close>.\<close>

definition one_column :: "string \<Rightarrow> schema_field list" where
  "one_column n = [Schema_field ''c'' None None None None]"

text \<open>
  A warehouse whose every join query returns one bucket of ten rows, five of them
  matched; and the state of a run that discovered the tables \<open>p_1\<close> and \<open>p_2\<close>.
\<close>

definition count_query :: "query \<Rightarrow> row list" where
  "count_query q = [\<lparr>cnt = 10, second_cnt = 5, grouped = [], sample_value = []\<rparr>]"

definition old_env :: env where
  "old_env = \<lparr>e_datasets = load_datasets one_column (resolve_versions (one_dataset [''p_1'', ''p_2''])),
               e_group_config = [], e_run_query = count_query\<rparr>"





text \<open>The table \<open>x\<close> with the columns \<open>col1\<close> and \<open>col2\<close>, the table \<open>y\<close> with \<open>col1\<close>.\<close>

definition xy_show :: "string \<Rightarrow> schema_field list" where
  "xy_show n =
     (if n = ''x''
      then [Schema_field ''col1'' None None None None, Schema_field ''col2'' None None None None]
      else [Schema_field ''col1'' None None None None])"

definition xy_datasets :: datasets where
  "xy_datasets = load_datasets xy_show (resolve_versions (one_dataset [''x'', ''y'']))"





section \<open>Properties of the join statistics\<close>










section \<open>Properties of schema flattening\<close>

text \<open>
  C7.  Flattening emits a field under its dot-qualified name, then the fields of its
  nested schema (qualified by that name), then its later siblings: depth first, in the
  order of declaration, a parent before its children.  The schema with the one field
  \<open>a\<close> that nests \<open>b\<close> and \<open>c\<close> flattens to \<open>a\<close>, \<open>a.b\<close>, \<open>a.c\<close>.
\<close>

theorem add_fields_preorder:
  "map f_name (add_fields tbl parent (Schema_field n d ty m (Some children) # rest))
     = (if parent \<noteq> [] then parent @ ''.'' @ n else n)
       # map f_name (add_fields tbl (if parent \<noteq> [] then parent @ ''.'' @ n else n) children)
       @ map f_name (add_fields tbl parent rest)
   \<and> map f_name (add_fields tbl parent (Schema_field n d ty m None # rest))
     = (if parent \<noteq> [] then parent @ ''.'' @ n else n) # map f_name (add_fields tbl parent rest)
   \<and> map f_name (add_fields tbl []
        [Schema_field ''a'' d ty m
           (Some [Schema_field ''b'' d1 ty1 m1 None, Schema_field ''c'' d2 ty2 m2 None])])
     = [''a'', ''a.b'', ''a.c'']"
  by (simp add: Let_def)

section \<open>Properties of the version pattern\<close>

lemmas vm_eval = version_match_def re_match_def version_pattern_def open_groups_def quant_of_def

lemma parse_version_pattern:
  "rx_parse version_pattern [] = Inr (GOpen # Rep AnyChar Plus # GClose # version_tail)"
  by (simp add: version_pattern_def version_tail_def version_digit_def version_alnum_def
      open_groups_def quant_of_def)

lemma digit_is_alnum: "atom_ok version_digit c \<Longrightarrow> atom_ok version_alnum c"
  by (simp add: version_digit_def version_alnum_def)

lemma run_alnum_star:
  "rx_run [Rep version_alnum Star, GClose] s n = Some [n + length (takeWhile (atom_ok version_alnum) s)]"
  by (induction s arbitrary: n) simp_all

lemma run_digit_alnum_star:
  "rx_run [Rep version_digit Star, Rep version_alnum Star, GClose] s n
     = Some [n + length (takeWhile (atom_ok version_alnum) s)]"
proof (induction s arbitrary: n)
  case Nil
  show ?case by simp
next
  case (Cons c cs)
  show ?case
  proof (cases "atom_ok version_digit c")
    case True
    with digit_is_alnum [OF True] Cons.IH [of "Suc n"] show ?thesis by simp
  next
    case False
    with run_alnum_star [of "c # cs" n] show ?thesis by simp
  qed
qed

lemma run_version_tail:
  "rx_run version_tail s n =
     (case s of
        u # d # r \<Rightarrow>
          (if u = CHR ''_'' \<and> atom_ok version_digit d
           then Some [Suc n, Suc (Suc n) + length (takeWhile (atom_ok version_alnum) r)]
           else None)
      | _ \<Rightarrow> None)"
proof (cases s)
  case Nil
  then show ?thesis by (simp add: version_tail_def)
next
  case (Cons u s')
  show ?thesis
  proof (cases s')
    case Nil
    with Cons show ?thesis by (simp add: version_tail_def)
  next
    case (Cons d r)
    with \<open>s = u # s'\<close> run_digit_alnum_star [of r "Suc (Suc n)"] show ?thesis
      by (simp add: version_tail_def)
  qed
qed

text \<open>The greedy star before the tail: the split it finds, and that no later split works.\<close>

lemma run_any_star_complete:
  "k \<le> length s \<Longrightarrow> CHR 0x0A \<notin> set (take k s) \<Longrightarrow> rx_run r (drop k s) (n + k) \<noteq> None \<Longrightarrow>
     rx_run (Rep AnyChar Star # GClose # r) s n \<noteq> None"
proof (induction s arbitrary: k n)
  case Nil
  then show ?case by simp
next
  case (Cons c cs)
  show ?case
  proof (cases k)
    case 0
    with Cons.prems show ?thesis by (auto split: option.splits)
  next
    case (Suc j)
    with Cons.prems have "j \<le> length cs" "CHR 0x0A \<notin> set (take j cs)" "c \<noteq> CHR 0x0A"
      "rx_run r (drop j cs) (Suc n + j) \<noteq> None" by auto
    with Cons.IH [of j "Suc n"] show ?thesis by (auto split: option.splits)
  qed
qed

lemma run_any_star_sound:
  "rx_run (Rep AnyChar Star # GClose # version_tail) s n = Some ms \<Longrightarrow>
     \<exists>k ms'. k \<le> length s \<and> CHR 0x0A \<notin> set (take k s)
        \<and> rx_run version_tail (drop k s) (n + k) = Some ms' \<and> ms = (n + k) # ms'
        \<and> (\<forall>k'. k < k' \<and> k' \<le> length s \<and> CHR 0x0A \<notin> set (take k' s)
               \<longrightarrow> rx_run version_tail (drop k' s) (n + k') = None)"
proof (induction s arbitrary: n ms)
  case Nil
  then show ?case by (auto split: option.splits)
next
  case (Cons c cs)
  show ?case
  proof (cases "c \<noteq> CHR 0x0A")
    case nl: False
    with Cons.prems obtain ms' where "rx_run version_tail (c # cs) n = Some ms'" "ms = n # ms'"
      by (auto split: option.splits)
    with nl show ?thesis
      by (intro exI [of _ 0] exI [of _ ms']) (auto simp: take_Cons')
  next
    case True
    show ?thesis
    proof (cases "rx_run (Rep AnyChar Star # GClose # version_tail) cs (Suc n)")
      case (Some g)
      with True Cons.prems have g: "g = ms" by simp
      from Cons.IH [OF Some] obtain k ms' where k: "k \<le> length cs" "CHR 0x0A \<notin> set (take k cs)"
        "rx_run version_tail (drop k cs) (Suc n + k) = Some ms'" "g = (Suc n + k) # ms'"
        "\<forall>k'. k < k' \<and> k' \<le> length cs \<and> CHR 0x0A \<notin> set (take k' cs)
               \<longrightarrow> rx_run version_tail (drop k' cs) (Suc n + k') = None" by blast
      have later: "\<forall>k'. Suc k < k' \<and> k' \<le> length (c # cs) \<and> CHR 0x0A \<notin> set (take k' (c # cs))
               \<longrightarrow> rx_run version_tail (drop k' (c # cs)) (n + k') = None"
      proof (intro allI impI)
        fix k' assume a: "Suc k < k' \<and> k' \<le> length (c # cs) \<and> CHR 0x0A \<notin> set (take k' (c # cs))"
        then obtain j where j: "k' = Suc j" by (cases k') auto
        with a k(5) have "rx_run version_tail (drop j cs) (Suc n + j) = None" by auto
        with j show "rx_run version_tail (drop k' (c # cs)) (n + k') = None" by simp
      qed
      from k True g later show ?thesis
        by (intro exI [of _ "Suc k"] exI [of _ ms']) auto
    next
      case None
      with True Cons.prems obtain ms' where r: "rx_run version_tail (c # cs) n = Some ms'" "ms = n # ms'"
        by (auto split: option.splits)
      have later: "\<forall>k'. 0 < k' \<and> k' \<le> length (c # cs) \<and> CHR 0x0A \<notin> set (take k' (c # cs))
               \<longrightarrow> rx_run version_tail (drop k' (c # cs)) (n + k') = None"
      proof (intro allI impI)
        fix k' assume a: "0 < k' \<and> k' \<le> length (c # cs) \<and> CHR 0x0A \<notin> set (take k' (c # cs))"
        then obtain j where j: "k' = Suc j" by (cases k') auto
        show "rx_run version_tail (drop k' (c # cs)) (n + k') = None"
        proof (rule ccontr)
          assume "rx_run version_tail (drop k' (c # cs)) (n + k') \<noteq> None"
          then obtain w where w: "rx_run version_tail (drop j cs) (Suc n + j) = Some w"
            using j by auto
          from a j have "j \<le> length cs" "CHR 0x0A \<notin> set (take j cs)" by auto
          with w have "rx_run (Rep AnyChar Star # GClose # version_tail) cs (Suc n) \<noteq> None"
            by (intro run_any_star_complete [of j]) auto
          with None show False by simp
        qed
      qed
      from r later show ?thesis
        by (intro exI [of _ 0] exI [of _ ms']) auto
    qed
  qed
qed


lemma version_match_run:
  "version_match name =
     (case rx_run (GOpen # Rep AnyChar Plus # GClose # version_tail) name 0 of
        Some [o1, c1, o2, c2] \<Rightarrow>
          Some (take (c1 - o1) (drop o1 name), take (c2 - o2) (drop o2 name))
      | _ \<Rightarrow> None)"
  by (simp add: version_match_def re_match_def parse_version_pattern)

lemma version_match_split:
  assumes "version_match name = Some (base, ver)"
  obtains c cs k d r where "name = c # cs" "c \<noteq> CHR 0x0A" "k \<le> length cs"
    "CHR 0x0A \<notin> set (take k cs)" "drop k cs = CHR ''_'' # d # r" "atom_ok version_digit d"
    "base = c # take k cs" "ver = d # takeWhile (atom_ok version_alnum) r"
    "\<forall>k'. k < k' \<and> k' \<le> length cs \<and> CHR 0x0A \<notin> set (take k' cs)
               \<longrightarrow> rx_run version_tail (drop k' cs) (Suc k') = None"
proof -
  from assms obtain ms where ms: "rx_run (GOpen # Rep AnyChar Plus # GClose # version_tail) name 0 = Some ms"
    by (auto simp: version_match_run split: option.splits)
  then obtain c cs where nm: "name = c # cs" by (cases name) auto
  with ms obtain g where c: "c \<noteq> CHR 0x0A"
    and g: "rx_run (Rep AnyChar Star # GClose # version_tail) cs (Suc 0) = Some g" and msg: "ms = 0 # g"
    by (auto split: if_splits)
  from run_any_star_sound [OF g] obtain k ms' where k: "k \<le> length cs" "CHR 0x0A \<notin> set (take k cs)"
    "rx_run version_tail (drop k cs) (Suc 0 + k) = Some ms'" "g = (Suc 0 + k) # ms'"
    "\<forall>k'. k < k' \<and> k' \<le> length cs \<and> CHR 0x0A \<notin> set (take k' cs)
               \<longrightarrow> rx_run version_tail (drop k' cs) (Suc 0 + k') = None" by blast
  from k(3) obtain d r where dr: "drop k cs = CHR ''_'' # d # r" "atom_ok version_digit d"
    "ms' = [Suc (Suc k), Suc (Suc (Suc k)) + length (takeWhile (atom_ok version_alnum) r)]"
    by (auto simp: run_version_tail split: list.splits if_splits)
  have cs: "cs = take k cs @ CHR ''_'' # d # r" using dr(1) by (metis append_take_drop_id)
  have len: "length (take k cs) = k" using k(1) by simp
  have d2: "drop (Suc k) cs = d # r"
    using dr(1) by (metis drop_Suc drop_drop list.sel(3) plus_1_eq_Suc tl_drop)
  from ms msg k(4) dr(3) assms nm
  have "base = c # take k cs"
    and "ver = take (Suc (length (takeWhile (atom_ok version_alnum) r))) (drop (Suc k) cs)"
    by (simp_all add: version_match_run)
  with d2 have "base = c # take k cs" "ver = d # takeWhile (atom_ok version_alnum) r"
    by (simp_all add: takeWhile_eq_take [symmetric] take_all)
  with that nm c k dr show ?thesis by simp
qed



text \<open>
  C4, as first stated: the name \<open>foo_bar_v2\<close> is split into the base \<open>foo_bar\<close> and the
  version \<open>v2\<close>.  The pattern does not match this name at all: after an underscore the
  version token has to begin with a digit, and neither \<open>bar_v2\<close> nor \<open>v2\<close> does.
\<close>

theorem foo_bar_v2_does_not_match:
  "version_match ''foo_bar_v2'' \<noteq> Some (''foo_bar'', ''v2'') \<and> version_match ''foo_bar_v2'' = None"
  by (simp add: vm_eval)


lemma version_match_parts:
  "(version_match name = Some (base, ver) \<longrightarrow>
      (\<exists>rest. name = base @ CHR ''_'' # ver @ rest
          \<and> (rest = [] \<or> \<not> atom_ok version_alnum (hd rest)))
      \<and> base \<noteq> [] \<and> CHR 0x0A \<notin> set base
      \<and> ver \<noteq> [] \<and> atom_ok version_digit (hd ver) \<and> (\<forall>c \<in> set ver. atom_ok version_alnum c)
      \<and> (\<forall>base' d' rest'. name = base' @ CHR ''_'' # d' # rest' \<and> base' \<noteq> []
             \<and> CHR 0x0A \<notin> set base' \<and> atom_ok version_digit d'
           \<longrightarrow> length base' \<le> length base))
   \<and> version_match ''foo_bar_2v'' = Some (''foo_bar'', ''2v'')"
proof (intro conjI impI)
  assume a: "version_match name = Some (base, ver)"
  then obtain c cs k d r where s: "name = c # cs" "c \<noteq> CHR 0x0A" "k \<le> length cs"
    "CHR 0x0A \<notin> set (take k cs)" "drop k cs = CHR ''_'' # d # r" "atom_ok version_digit d"
    "base = c # take k cs" "ver = d # takeWhile (atom_ok version_alnum) r"
    "\<forall>k'. k < k' \<and> k' \<le> length cs \<and> CHR 0x0A \<notin> set (take k' cs)
               \<longrightarrow> rx_run version_tail (drop k' cs) (Suc k') = None"
    by (rule version_match_split)
  have cs: "cs = take k cs @ CHR ''_'' # d # r" using s(5) by (metis append_take_drop_id)
  let ?rest = "dropWhile (atom_ok version_alnum) r"
  have "name = base @ CHR ''_'' # ver @ ?rest"
    using s(1,7,8) cs by simp
  moreover have "?rest = [] \<or> \<not> atom_ok version_alnum (hd ?rest)"
    by (metis hd_dropWhile)
  ultimately show "\<exists>rest. name = base @ CHR ''_'' # ver @ rest
          \<and> (rest = [] \<or> \<not> atom_ok version_alnum (hd rest))" by blast
  show "base \<noteq> []" using s(7) by simp
  show "CHR 0x0A \<notin> set base" using s(2,4,7) by simp
  show "ver \<noteq> []" using s(8) by simp
  show "atom_ok version_digit (hd ver)" using s(6,8) by simp
  show "\<forall>c \<in> set ver. atom_ok version_alnum c"
    using s(6,8) digit_is_alnum by (auto dest: set_takeWhileD)
  show "\<forall>base' d' rest'. name = base' @ CHR ''_'' # d' # rest' \<and> base' \<noteq> []
             \<and> CHR 0x0A \<notin> set base' \<and> atom_ok version_digit d'
           \<longrightarrow> length base' \<le> length base"
  proof (intro allI impI, rule ccontr)
    fix base' d' rest'
    assume b: "name = base' @ CHR ''_'' # d' # rest' \<and> base' \<noteq> []
             \<and> CHR 0x0A \<notin> set base' \<and> atom_ok version_digit d'"
      and gt: "\<not> length base' \<le> length base"
    from b obtain e es where be: "base' = e # es" by (cases base') auto
    with b s(1) have cs': "cs = es @ CHR ''_'' # d' # rest'" by simp
    let ?k' = "length es"
    from gt be s(7) s(3) have kk: "k < ?k'" by simp
    have "?k' \<le> length cs" using cs' by simp
    moreover have "CHR 0x0A \<notin> set (take ?k' cs)" using cs' b be by simp
    ultimately have "rx_run version_tail (drop ?k' cs) (Suc ?k') = None" using s(9) kk by blast
    moreover have "drop ?k' cs = CHR ''_'' # d' # rest'" using cs' by simp
    ultimately show False using b by (simp add: run_version_tail)
  qed
next
  show "version_match ''foo_bar_2v'' = Some (''foo_bar'', ''2v'')" by (simp add: vm_eval)
qed

lemma version_match_sound:
  assumes "version_match name = Some (base, ver)"
  shows "(\<exists>rest. name = base @ CHR ''_'' # ver @ rest
          \<and> (rest = [] \<or> \<not> atom_ok version_alnum (hd rest)))
      \<and> base \<noteq> [] \<and> CHR 0x0A \<notin> set base
      \<and> ver \<noteq> [] \<and> atom_ok version_digit (hd ver) \<and> (\<forall>c \<in> set ver. atom_ok version_alnum c)
      \<and> (\<forall>base' d' rest'. name = base' @ CHR ''_'' # d' # rest' \<and> base' \<noteq> []
             \<and> CHR 0x0A \<notin> set base' \<and> atom_ok version_digit d'
           \<longrightarrow> length base' \<le> length base)"
  using version_match_parts [of name base ver] assms by blast

lemma version_match_exists:
  assumes nm: "name = base' @ CHR ''_'' # d' # rest'" and ne: "base' \<noteq> []"
    and nl: "CHR 0x0A \<notin> set base'" and dg: "atom_ok version_digit d'"
  shows "\<exists>base ver. version_match name = Some (base, ver)"
proof -
  from ne obtain e es where be: "base' = e # es" by (cases base') auto
  let ?cs = "es @ CHR ''_'' # d' # rest'"
  have name: "name = e # ?cs" using nm be by simp
  have e: "e \<noteq> CHR 0x0A" using nl be by auto
  have k: "length es \<le> length ?cs" by simp
  have tk: "CHR 0x0A \<notin> set (take (length es) ?cs)" using nl be by simp
  have dr: "drop (length es) ?cs = CHR ''_'' # d' # rest'" by simp
  have "rx_run version_tail (drop (length es) ?cs) (Suc 0 + length es) \<noteq> None"
    using dg by (simp only: dr run_version_tail) simp
  with k tk have "rx_run (Rep AnyChar Star # GClose # version_tail) ?cs (Suc 0) \<noteq> None"
    by (rule run_any_star_complete)
  then obtain g where g: "rx_run (Rep AnyChar Star # GClose # version_tail) ?cs (Suc 0) = Some g"
    by blast
  from run_any_star_sound [OF g] obtain j ms' where
    j: "rx_run version_tail (drop j ?cs) (Suc 0 + j) = Some ms'" "g = (Suc 0 + j) # ms'"
    by blast
  from j(1) obtain a b where ab: "ms' = [a, b]"
    by (auto simp: run_version_tail split: list.splits if_splits)
  have "rx_run (GOpen # Rep AnyChar Plus # GClose # version_tail) name 0 = Some [0, Suc 0 + j, a, b]"
    using name e g j(2) ab by simp
  then show ?thesis by (simp add: version_match_run)
qed

lemma takeWhile_run:
  assumes "\<forall>c \<in> set xs. P c" and "ys = [] \<or> \<not> P (hd ys)"
  shows "takeWhile P (xs @ ys) = xs"
proof -
  have "takeWhile P (xs @ ys) = xs @ takeWhile P ys" using assms(1) by simp
  moreover have "takeWhile P ys = []" using assms(2) by (cases ys) auto
  ultimately show ?thesis by simp
qed

lemma version_match_complete:
  assumes ex: "\<exists>rest. name = base @ CHR ''_'' # ver @ rest
          \<and> (rest = [] \<or> \<not> atom_ok version_alnum (hd rest))"
    and b: "base \<noteq> []" "CHR 0x0A \<notin> set base"
    and v: "ver \<noteq> []" "atom_ok version_digit (hd ver)" "\<forall>c \<in> set ver. atom_ok version_alnum c"
    and mx: "\<forall>base' d' rest'. name = base' @ CHR ''_'' # d' # rest' \<and> base' \<noteq> []
             \<and> CHR 0x0A \<notin> set base' \<and> atom_ok version_digit d'
           \<longrightarrow> length base' \<le> length base"
  shows "version_match name = Some (base, ver)"
proof -
  from ex obtain rest where nm: "name = base @ CHR ''_'' # ver @ rest"
    and rs: "rest = [] \<or> \<not> atom_ok version_alnum (hd rest)" by blast
  from v(1) obtain d vs where ver: "ver = d # vs" by (cases ver) auto
  have nm': "name = base @ CHR ''_'' # d # (vs @ rest)" using nm ver by simp
  have dg: "atom_ok version_digit d" using v(2) ver by simp
  from version_match_exists [OF nm' b dg] obtain b2 v2 where m2: "version_match name = Some (b2, v2)"
    by blast
  from version_match_sound [OF m2] obtain rest2 where
    nm2: "name = b2 @ CHR ''_'' # v2 @ rest2"
    and rs2: "rest2 = [] \<or> \<not> atom_ok version_alnum (hd rest2)"
    and b2: "b2 \<noteq> []" "CHR 0x0A \<notin> set b2"
    and v2: "v2 \<noteq> []" "atom_ok version_digit (hd v2)" "\<forall>c \<in> set v2. atom_ok version_alnum c"
    and mx2: "\<forall>base' d' rest'. name = base' @ CHR ''_'' # d' # rest' \<and> base' \<noteq> []
             \<and> CHR 0x0A \<notin> set base' \<and> atom_ok version_digit d'
           \<longrightarrow> length base' \<le> length b2"
    by blast
  from v2(1) obtain d2 vs2 where ver2: "v2 = d2 # vs2" by (cases v2) auto
  have nm2': "name = b2 @ CHR ''_'' # d2 # (vs2 @ rest2)" using nm2 ver2 by simp
  have dg2: "atom_ok version_digit d2" using v2(2) ver2 by simp
  from mx2 nm' b dg have le1: "length base \<le> length b2" by blast
  from mx nm2' b2 dg2 have le2: "length b2 \<le> length base" by blast
  from le1 le2 have len: "length base = length b2" by simp
  from nm nm2 have eq: "base @ (CHR ''_'' # ver @ rest) = b2 @ (CHR ''_'' # v2 @ rest2)" by simp
  from eq len have bb: "base = b2" and tl: "CHR ''_'' # ver @ rest = CHR ''_'' # v2 @ rest2"
    by simp_all
  from tl have vv: "ver @ rest = v2 @ rest2" by simp
  have "ver = takeWhile (atom_ok version_alnum) (ver @ rest)"
    using takeWhile_run [OF v(3) rs] by simp
  also have "\<dots> = takeWhile (atom_ok version_alnum) (v2 @ rest2)" by (simp only: vv)
  also have "\<dots> = v2" using v2(3) rs2 by (rule takeWhile_run)
  finally have "ver = v2" .
  with bb m2 show ?thesis by simp
qed

text \<open>
  C4, amended.  The version pattern matches a name and splits it into a base and a
  version token exactly when the name is the base, an underscore, the token and a rest,
  where the base is not empty and has no newline, the token begins with a digit,
  consists of digits and ASCII letters and is not followed by another of them, and
  the base is the longest that allows this (the last underscore followed by a digit
  splits the name).  So a name is matched exactly when it has an underscore followed
  by a digit after a non-empty prefix without newline.  The name \<open>foo_bar_2v\<close> gives
  the base \<open>foo_bar\<close> and the version \<open>2v\<close>.
\<close>

theorem version_match_shape:
  "(version_match name = Some (base, ver) \<longleftrightarrow>
      (\<exists>rest. name = base @ CHR ''_'' # ver @ rest
          \<and> (rest = [] \<or> \<not> atom_ok version_alnum (hd rest)))
      \<and> base \<noteq> [] \<and> CHR 0x0A \<notin> set base
      \<and> ver \<noteq> [] \<and> atom_ok version_digit (hd ver) \<and> (\<forall>c \<in> set ver. atom_ok version_alnum c)
      \<and> (\<forall>base' d' rest'. name = base' @ CHR ''_'' # d' # rest' \<and> base' \<noteq> []
             \<and> CHR 0x0A \<notin> set base' \<and> atom_ok version_digit d'
           \<longrightarrow> length base' \<le> length base))
   \<and> ((\<exists>base ver. version_match name = Some (base, ver)) \<longleftrightarrow>
      (\<exists>base' d' rest'. name = base' @ CHR ''_'' # d' # rest' \<and> base' \<noteq> []
             \<and> CHR 0x0A \<notin> set base' \<and> atom_ok version_digit d'))
   \<and> version_match ''foo_bar_2v'' = Some (''foo_bar'', ''2v'')"
proof (intro conjI)
  show "version_match name = Some (base, ver) \<longleftrightarrow>
      (\<exists>rest. name = base @ CHR ''_'' # ver @ rest
          \<and> (rest = [] \<or> \<not> atom_ok version_alnum (hd rest)))
      \<and> base \<noteq> [] \<and> CHR 0x0A \<notin> set base
      \<and> ver \<noteq> [] \<and> atom_ok version_digit (hd ver) \<and> (\<forall>c \<in> set ver. atom_ok version_alnum c)
      \<and> (\<forall>base' d' rest'. name = base' @ CHR ''_'' # d' # rest' \<and> base' \<noteq> []
             \<and> CHR 0x0A \<notin> set base' \<and> atom_ok version_digit d'
           \<longrightarrow> length base' \<le> length base)"
    (is "?l \<longleftrightarrow> ?r")
  proof
    assume ?l
    then show ?r by (rule version_match_sound)
  next
    assume r: ?r
    show ?l
      by (rule version_match_complete) (use r in blast)+
  qed
next
  show "(\<exists>base ver. version_match name = Some (base, ver)) \<longleftrightarrow>
      (\<exists>base' d' rest'. name = base' @ CHR ''_'' # d' # rest' \<and> base' \<noteq> []
             \<and> CHR 0x0A \<notin> set base' \<and> atom_ok version_digit d')"
  proof
    assume "\<exists>base ver. version_match name = Some (base, ver)"
    then obtain base ver where m: "version_match name = Some (base, ver)" by blast
    from version_match_sound [OF m] obtain rest where
      nm: "name = base @ CHR ''_'' # ver @ rest" and b: "base \<noteq> []" "CHR 0x0A \<notin> set base"
      and v: "ver \<noteq> []" "atom_ok version_digit (hd ver)" by blast
    from v(1) obtain d vs where ver: "ver = d # vs" by (cases ver) auto
    with nm v(2) have "name = base @ CHR ''_'' # d # (vs @ rest)" "atom_ok version_digit d" by simp_all
    with b show "\<exists>base' d' rest'. name = base' @ CHR ''_'' # d' # rest' \<and> base' \<noteq> []
             \<and> CHR 0x0A \<notin> set base' \<and> atom_ok version_digit d'" by blast
  next
    assume "\<exists>base' d' rest'. name = base' @ CHR ''_'' # d' # rest' \<and> base' \<noteq> []
             \<and> CHR 0x0A \<notin> set base' \<and> atom_ok version_digit d'"
    then show "\<exists>base ver. version_match name = Some (base, ver)"
      using version_match_exists by blast
  qed
next
  show "version_match ''foo_bar_2v'' = Some (''foo_bar'', ''2v'')" by (simp add: vm_eval)
qed

theorem version_match_shape_witness:
  "version_match ''patents.publications_201710'' = Some (''patents.publications'', ''201710'')
   \<and> (\<exists>base ver. version_match ''a_1_2x-y'' = Some (base, ver))
   \<and> atom_ok version_digit (hd ''201710'')"
proof -
  have m: "version_match ''patents.publications_201710'' = Some (''patents.publications'', ''201710'')"
    by (simp add: vm_eval)
  have d: "\<exists>base' d' rest'. ''a_1_2x-y'' = base' @ CHR ''_'' # d' # rest' \<and> base' \<noteq> []
             \<and> CHR 0x0A \<notin> set base' \<and> atom_ok version_digit d'"
    by (intro exI [of _ "''a_1''"] exI [of _ "CHR ''2''"] exI [of _ "''x-y''"])
       (simp add: version_digit_def)
  from version_match_shape [of "''a_1_2x-y''", THEN conjunct2, THEN conjunct1, THEN iffD2, OF d]
  have e: "\<exists>base ver. version_match ''a_1_2x-y'' = Some (base, ver)" .
  from version_match_shape [of "''patents.publications_201710''" "''patents.publications''" "''201710''",
      THEN conjunct1, THEN iffD1, OF m]
  have f: "atom_ok version_digit (hd ''201710'')" by blast
  show ?thesis by (rule conjI [OF m conjI [OF e f]])
qed

section \<open>Properties of version resolution\<close>

subsection \<open>The nested loops over datasets are one loop over all tables\<close>

lemma version_tables_append:
  "version_tables st (xs @ ys) =
     (let (st1, xs') = version_tables st xs; (st2, ys') = version_tables st1 ys
      in (st2, xs' @ ys'))"
  by (induction xs arbitrary: st) (auto simp: Let_def split: prod.splits)

lemma version_datasets_flat:
  "fst (version_datasets st ds) = fst (version_tables st (all_tables ds)) \<and>
   all_tables (snd (version_datasets st ds)) = snd (version_tables st (all_tables ds))"
proof (induction ds arbitrary: st)
  case Nil
  show ?case by (simp add: all_tables_def)
next
  case (Cons d ds)
  obtain st1 ts' where a: "version_tables st (d_tables d) = (st1, ts')" by (cases "version_tables st (d_tables d)")
  obtain st2 ds' where b: "version_datasets st1 ds = (st2, ds')" by (cases "version_datasets st1 ds")
  from Cons.IH [of st1] b
  have ih: "fst (version_tables st1 (all_tables ds)) = st2"
           "snd (version_tables st1 (all_tables ds)) = all_tables ds'" by simp_all
  obtain st3 us where c: "version_tables st1 (all_tables ds) = (st3, us)" by (cases "version_tables st1 (all_tables ds)")
  with ih have "st3 = st2" "us = all_tables ds'" by simp_all
  with a b c show ?case
    by (simp add: all_tables_def version_tables_append)
qed

lemma all_tables_mark_old:
  "all_tables (mark_old latest ds) = map (mark_old_table latest) (all_tables ds)"
  by (induction ds) (simp_all add: all_tables_def mark_old_def)

lemma all_tables_load:
  "all_tables (load_datasets show ds) = map (load_table show) (all_tables ds)"
  by (induction ds) (simp_all add: all_tables_def load_datasets_def)

lemma all_tables_resolve:
  "all_tables (resolve_versions ds) =
     map (mark_old_table (latest_tables (fst (version_tables version_init (all_tables ds)))))
       (snd (version_tables version_init (all_tables ds)))"
proof -
  obtain st ds' where a: "version_datasets version_init ds = (st, ds')"
    by (cases "version_datasets version_init ds")
  with version_datasets_flat [of version_init ds] show ?thesis
    by (simp add: resolve_versions_def all_tables_mark_old)
qed

subsection \<open>What one step leaves alone\<close>

lemma version_table_same:
  "t_name (snd (version_table st t)) = t_name t \<and>
   t_fields (snd (version_table st t)) = t_fields t \<and>
   t_old_version (snd (version_table st t)) = t_old_version t"
  by (simp add: version_table_def Let_def split: option.splits prod.splits)

lemma version_tables_same:
  "map t_name (snd (version_tables st ts)) = map t_name ts \<and>
   map t_fields (snd (version_tables st ts)) = map t_fields ts \<and>
   map t_old_version (snd (version_tables st ts)) = map t_old_version ts"
proof (induction ts arbitrary: st)
  case Nil
  show ?case by simp
next
  case (Cons t ts)
  obtain st1 t' where a: "version_table st t = (st1, t')" by (cases "version_table st t")
  obtain st2 ts' where b: "version_tables st1 ts = (st2, ts')" by (cases "version_tables st1 ts")
  from version_table_same [of st t] a have "t_name t' = t_name t" "t_fields t' = t_fields t"
    "t_old_version t' = t_old_version t" by simp_all
  moreover from Cons.IH [of st1] b have "map t_name ts' = map t_name ts"
    "map t_fields ts' = map t_fields ts" "map t_old_version ts' = map t_old_version ts" by simp_all
  ultimately show ?case using a b by simp
qed

lemma version_tables_snoc:
  "fst (version_tables st (ts @ [t])) = fst (version_table (fst (version_tables st ts)) t)"
  by (simp add: version_tables_append split: prod.splits)


lemma vinv_init: "vinv version_init []"
  by (simp add: vinv_def version_init_def no_version_names_def family_def)

lemma finite_family: "finite (family k ns)"
  by (simp add: family_def)

lemma family_snoc_other:
  "version_match n = None \<Longrightarrow> family k (ns @ [n]) = family k ns"
  by (auto simp: family_def)

lemma family_snoc_match:
  "version_match n = Some (b, v) \<Longrightarrow>
     family k (ns @ [n]) = (if k = b then insert n (family b ns) else family k ns)"
  by (auto simp: family_def)

lemma nv_snoc_other:
  "version_match n = None \<Longrightarrow> no_version_names (ns @ [n]) = insert n (no_version_names ns)"
  by (auto simp: no_version_names_def)

lemma nv_snoc_match:
  "version_match n = Some (b, v) \<Longrightarrow> no_version_names (ns @ [n]) = no_version_names ns"
  by (auto simp: no_version_names_def)

lemma vinv_step:
  assumes "vinv st ns"
  shows "vinv (fst (version_table st t)) (ns @ [t_name t])"
proof (cases "version_match (t_name t)")
  case None
  with assms show ?thesis
    by (simp add: vinv_def version_table_def distinct_update update_conv' family_snoc_other nv_snoc_other)
next
  case (Some bv)
  obtain b v where bv: "bv = (b, v)" by (cases bv)
  note m = Some [unfolded bv]
  let ?n = "t_name t"
  from assms have d: "distinct (map fst (latest_table_base st))"
    and nv: "\<And>n. map_of (no_version_tables st) n = (if n \<in> no_version_names ns then Some True else None)"
    and lt: "\<And>k. map_of (latest_table_base st) k =
            (if k \<in> no_version_names ns then Some k
             else if family k ns = {} then None
             else Some (Max (family k ns)))"
    by (simp_all add: vinv_def)
  show ?thesis
  proof (cases "b \<in> no_version_names ns")
    case True
    with m nv lt d show ?thesis
      by (simp add: vinv_def version_table_def Let_def nv_snoc_match family_snoc_match)
  next
    case False
    note nb = False
    show ?thesis
    proof (cases "family b ns = {}")
      case True
      with nb m nv lt d show ?thesis
        by (simp add: vinv_def version_table_def Let_def nv_snoc_match family_snoc_match
            distinct_update update_conv')
    next
      case False
      have fin: "finite (family b ns)" by (rule finite_family)
      show ?thesis
      proof (cases "Max (family b ns) < ?n")
        case True
        have "Max (insert ?n (family b ns)) = max ?n (Max (family b ns))"
          using fin False by (rule Max_insert)
        also have "\<dots> = ?n"
          using True by (intro max_absorb1 less_imp_le)
        finally have mx: "Max (insert ?n (family b ns)) = ?n" .
        from True False nb m nv lt d mx show ?thesis
          by (simp add: vinv_def version_table_def Let_def nv_snoc_match family_snoc_match
              distinct_update update_conv')
      next
        case gt: False
        have "Max (insert ?n (family b ns)) = max ?n (Max (family b ns))"
          using fin False by (rule Max_insert)
        also have "\<dots> = Max (family b ns)"
          using gt by (intro max_absorb2) (simp only: not_less)
        finally have mx: "Max (insert ?n (family b ns)) = Max (family b ns)" .
        from gt False nb m nv lt d mx show ?thesis
          by (simp add: vinv_def version_table_def Let_def nv_snoc_match family_snoc_match
              distinct_update update_conv')
      qed
    qed
  qed
qed

lemma vinv_tables: "vinv (fst (version_tables version_init ts)) (map t_name ts)"
proof (induction ts rule: rev_induct)
  case Nil
  show ?case by (simp add: vinv_init)
next
  case (snoc t ts)
  from vinv_step [OF snoc.IH, of t] show ?case
    by (simp add: version_tables_snoc)
qed


lemma resolved_table:
  assumes "t \<in> set (all_tables (resolve_versions ds))"
  obtains t' where "t' \<in> set (snd (version_tables version_init (all_tables ds)))"
    and "t = mark_old_table (latest_tables (fst (version_tables version_init (all_tables ds)))) t'"
  using assms by (auto simp: all_tables_resolve)

lemma versioned_in_names:
  assumes "t' \<in> set (snd (version_tables st ts))"
  shows "t_name t' \<in> set (map t_name ts)"
proof -
  from assms have "t_name t' \<in> set (map t_name (snd (version_tables st ts)))" by simp
  then show ?thesis by (simp only: version_tables_same)
qed

lemma versioned_keeps_flag:
  assumes "\<forall>t \<in> set ts. \<not> t_old_version t" and "t' \<in> set (snd (version_tables st ts))"
  shows "\<not> t_old_version t'"
proof -
  from assms(2) have "t_old_version t' \<in> set (map t_old_version (snd (version_tables st ts)))"
    by simp
  then have "t_old_version t' \<in> set (map t_old_version ts)" by (simp only: version_tables_same)
  with assms(1) show ?thesis by auto
qed

lemma latest_values:
  assumes "vinv st ns"
  shows "n \<in> set (latest_tables st) \<longleftrightarrow> (\<exists>k. map_of (latest_table_base st) k = Some n)"
proof -
  from assms have d: "distinct (map fst (latest_table_base st))" by (simp add: vinv_def)
  have "set (latest_tables st) = snd ` set (latest_table_base st)" by (simp add: latest_tables_def)
  also have "\<dots> = ran (map_of (latest_table_base st))" using d by (simp add: ran_distinct)
  finally show ?thesis by (auto simp: ran_def)
qed

lemma unversioned_is_latest:
  assumes "vinv st ns" and "n \<in> set ns" and "version_match n = None"
  shows "n \<in> set (latest_tables st)"
proof -
  from assms(2,3) have "n \<in> no_version_names ns" by (simp add: no_version_names_def)
  with assms(1) have "map_of (latest_table_base st) n = Some n" by (simp add: vinv_def)
  with latest_values [OF assms(1)] show ?thesis by blast
qed

lemma versioned_is_latest_iff:
  assumes inv: "vinv st ns" and n: "n \<in> set ns" and m: "version_match n = Some (b, v)"
    and nb: "b \<notin> no_version_names ns"
  shows "n \<in> set (latest_tables st) \<longleftrightarrow> \<not> (\<exists>u \<in> family b ns. n < u)"
proof -
  from n m have nf: "n \<in> family b ns" by (auto simp: family_def)
  have fin: "finite (family b ns)" by (rule finite_family)
  from inv have lt: "\<And>k. map_of (latest_table_base st) k =
            (if k \<in> no_version_names ns then Some k
             else if family k ns = {} then None
             else Some (Max (family k ns)))" by (simp add: vinv_def)
  have keys: "(\<exists>k. map_of (latest_table_base st) k = Some n) \<longleftrightarrow> n = Max (family b ns)"
  proof
    assume "\<exists>k. map_of (latest_table_base st) k = Some n"
    then obtain k where k: "map_of (latest_table_base st) k = Some n" ..
    show "n = Max (family b ns)"
    proof (cases "k \<in> no_version_names ns")
      case True
      with k lt [of k] have "k = n" by simp
      with True m show ?thesis by (simp add: no_version_names_def)
    next
      case False
      with k lt [of k] have ne: "family k ns \<noteq> {}" and mx: "n = Max (family k ns)"
        by (simp_all split: if_splits)
      have "Max (family k ns) \<in> family k ns" using ne by (intro Max_in finite_family)
      with mx have "n \<in> family k ns" by simp
      with m have "k = b" by (auto simp: family_def)
      with mx show ?thesis by simp
    qed
  next
    assume "n = Max (family b ns)"
    with nb nf lt [of b] have "map_of (latest_table_base st) b = Some n" by auto
    then show "\<exists>k. map_of (latest_table_base st) k = Some n" ..
  qed
  have "n = Max (family b ns) \<longleftrightarrow> (\<forall>u \<in> family b ns. u \<le> n)"
    using fin nf by (auto intro: Max_eqI [symmetric])
  also have "\<dots> \<longleftrightarrow> \<not> (\<exists>u \<in> family b ns. n < u)" by (auto simp: not_less)
  finally show ?thesis using latest_values [OF inv, of n] keys by simp
qed


text \<open>
  C5.  A table whose name the version pattern does not match is not marked old by
  version resolution, whatever other tables were discovered (versioned siblings of
  its name included) and in whatever order and datasets they are processed.
\<close>

theorem unversioned_table_never_old:
  assumes "\<forall>t \<in> set (all_tables ds). \<not> t_old_version t"
    and "t \<in> set (all_tables (resolve_versions ds))"
    and "version_match (t_name t) = None"
  shows "\<not> t_old_version t"
proof -
  let ?st = "fst (version_tables version_init (all_tables ds))"
  from assms(2) obtain t' where t': "t' \<in> set (snd (version_tables version_init (all_tables ds)))"
    and t: "t = mark_old_table (latest_tables ?st) t'" by (rule resolved_table)
  have nm: "t_name t = t_name t'" using t by (simp add: mark_old_table_def)
  have "t_name t' \<in> set (map t_name (all_tables ds))" using t' by (rule versioned_in_names)
  with assms(3) nm have "t_name t' \<in> set (latest_tables ?st)"
    using unversioned_is_latest [OF vinv_tables] by simp
  moreover have "\<not> t_old_version t'" using assms(1) t' by (rule versioned_keeps_flag)
  ultimately show ?thesis using t by (simp add: mark_old_table_def)
qed

theorem unversioned_table_never_old_witness:
  "t_name (all_tables (resolve_versions (one_dataset [''b_9'', ''b'', ''b_1''])) ! 1) = ''b''
   \<and> \<not> t_old_version (all_tables (resolve_versions (one_dataset [''b_9'', ''b'', ''b_1''])) ! 1)"
proof -
  let ?ds = "one_dataset [''b_9'', ''b'', ''b_1'']"
  let ?t = "all_tables (resolve_versions ?ds) ! 1"
  have 1: "\<forall>t \<in> set (all_tables ?ds). \<not> t_old_version t" by code_simp
  have 2: "?t \<in> set (all_tables (resolve_versions ?ds))" by code_simp
  have 3: "t_name ?t = ''b''" by code_simp
  have 4: "version_match (t_name ?t) = None" by code_simp
  from unversioned_table_never_old [OF 1 2 4] 3 show ?thesis by simp
qed

lemma versioned_old_iff:
  assumes "\<forall>t \<in> set (all_tables ds). \<not> t_old_version t"
    and "t \<in> set (all_tables (resolve_versions ds))"
    and "version_match (t_name t) = Some (b, v)"
    and "b \<notin> no_version_names (map t_name (all_tables ds))"
  shows "t_old_version t \<longleftrightarrow> (\<exists>u \<in> family b (map t_name (all_tables ds)). t_name t < u)"
proof -
  let ?st = "fst (version_tables version_init (all_tables ds))"
  from assms(2) obtain t' where t': "t' \<in> set (snd (version_tables version_init (all_tables ds)))"
    and t: "t = mark_old_table (latest_tables ?st) t'" by (rule resolved_table)
  have nm: "t_name t = t_name t'" using t by (simp add: mark_old_table_def)
  have n: "t_name t' \<in> set (map t_name (all_tables ds))" using t' by (rule versioned_in_names)
  have f: "\<not> t_old_version t'" using assms(1) t' by (rule versioned_keeps_flag)
  from versioned_is_latest_iff [OF vinv_tables n, of b v] assms(3,4) nm
  have "t_name t' \<in> set (latest_tables ?st)
          \<longleftrightarrow> \<not> (\<exists>u \<in> family b (map t_name (all_tables ds)). t_name t' < u)" by simp
  with f t nm show ?thesis by (simp add: mark_old_table_def)
qed

lemma vm_a: "version_match ''a_1'' = Some (''a'', ''1'')" "version_match ''a_2'' = Some (''a'', ''2'')"
  "version_match ''a_10'' = Some (''a'', ''10'')"
  by (simp_all add: vm_eval)


lemma versioned_with_unversioned_base_not_latest:
  assumes inv: "vinv st ns" and n: "n \<in> set ns" and m: "version_match n = Some (b, v)"
    and nb: "b \<in> no_version_names ns"
  shows "n \<notin> set (latest_tables st)"
proof
  assume "n \<in> set (latest_tables st)"
  with latest_values [OF inv, of n] obtain k where k: "map_of (latest_table_base st) k = Some n"
    by blast
  from inv have lt: "map_of (latest_table_base st) k =
            (if k \<in> no_version_names ns then Some k
             else if family k ns = {} then None
             else Some (Max (family k ns)))" by (simp add: vinv_def)
  show False
  proof (cases "k \<in> no_version_names ns")
    case True
    with k lt have "k = n" by simp
    with True m show False by (simp add: no_version_names_def)
  next
    case False
    with k lt have ne: "family k ns \<noteq> {}" and mx: "n = Max (family k ns)"
      by (simp_all split: if_splits)
    have "Max (family k ns) \<in> family k ns" using ne by (intro Max_in finite_family)
    with mx have "n \<in> family k ns" by simp
    with m have "k = b" by (auto simp: family_def)
    with False nb show False by simp
  qed
qed

lemma versioned_old_when_base_unversioned:
  assumes "\<forall>t \<in> set (all_tables ds). \<not> t_old_version t"
    and "t \<in> set (all_tables (resolve_versions ds))"
    and "version_match (t_name t) = Some (b, v)"
    and "b \<in> no_version_names (map t_name (all_tables ds))"
  shows "t_old_version t"
proof -
  let ?st = "fst (version_tables version_init (all_tables ds))"
  from assms(2) obtain t' where t': "t' \<in> set (snd (version_tables version_init (all_tables ds)))"
    and t: "t = mark_old_table (latest_tables ?st) t'" by (rule resolved_table)
  have nm: "t_name t = t_name t'" using t by (simp add: mark_old_table_def)
  have n: "t_name t' \<in> set (map t_name (all_tables ds))" using t' by (rule versioned_in_names)
  from assms(3) nm have m: "version_match (t_name t') = Some (b, v)" by simp
  from versioned_with_unversioned_base_not_latest [OF vinv_tables n m assms(4)]
  have "t_name t' \<notin> set (latest_tables ?st)" .
  with t show ?thesis by (simp add: mark_old_table_def)
qed

text \<open>
  C3, as first stated: within each version family the lexicographically greatest
  name is the latest.  When the base of the family is itself the name of a table that
  the pattern does not match, the guard \<^verbatim>\<open>not no_version_tables.get(base, "")\<close> of
  line 166 keeps that table as the latest of the base, and the greatest name of the
  family is marked old with the rest: so it is for \<open>d.a_2\<close> beside \<open>d.a\<close> and
  \<open>d.a_1\<close>.
\<close>

theorem greatest_of_family_marked_old:
  "map t_name (all_tables (resolve_versions (one_dataset [''d.a_1'', ''d.a'', ''d.a_2''])))
     = [''d.a_1'', ''d.a'', ''d.a_2'']
   \<and> version_match ''d.a_1'' = Some (''d.a'', ''1'')
   \<and> version_match ''d.a_2'' = Some (''d.a'', ''2'')
   \<and> ''d.a_1'' < ''d.a_2''
   \<and> map t_old_version (all_tables (resolve_versions (one_dataset [''d.a_1'', ''d.a'', ''d.a_2''])))
     = [True, False, True]"
  by code_simp

text \<open>
  C3, amended.  A versioned table is marked old exactly when its base is the name of
  a discovered table that the pattern does not match, or its family holds a name that
  is greater as a string; so in a family whose base is not such a name the latest is
  the lexicographically greatest name, and in a family whose base is one every member
  is old.  When the names discovered are \<open>a_1\<close>, \<open>a_2\<close> and \<open>a_10\<close>, in any order and
  any grouping into datasets, \<open>a_2\<close> is the latest and the other two are old.
\<close>

theorem version_resolution_lexicographic:
  assumes "\<forall>t \<in> set (all_tables ds). \<not> t_old_version t"
    and "t \<in> set (all_tables (resolve_versions ds))"
  shows "(\<forall>b v. version_match (t_name t) = Some (b, v)
           \<longrightarrow> (t_old_version t \<longleftrightarrow>
                  b \<in> no_version_names (map t_name (all_tables ds))
                  \<or> (\<exists>u \<in> family b (map t_name (all_tables ds)). t_name t < u)))
       \<and> (set (map t_name (all_tables ds)) = {''a_1'', ''a_2'', ''a_10''}
           \<longrightarrow> (t_old_version t \<longleftrightarrow> t_name t \<noteq> ''a_2''))"
proof (rule conjI)
  show "\<forall>b v. version_match (t_name t) = Some (b, v)
           \<longrightarrow> (t_old_version t \<longleftrightarrow>
                  b \<in> no_version_names (map t_name (all_tables ds))
                  \<or> (\<exists>u \<in> family b (map t_name (all_tables ds)). t_name t < u))"
  proof (intro allI impI)
    fix b v
    assume m: "version_match (t_name t) = Some (b, v)"
    show "t_old_version t \<longleftrightarrow>
                  b \<in> no_version_names (map t_name (all_tables ds))
                  \<or> (\<exists>u \<in> family b (map t_name (all_tables ds)). t_name t < u)"
    proof (cases "b \<in> no_version_names (map t_name (all_tables ds))")
      case True
      with versioned_old_when_base_unversioned [OF assms m] show ?thesis by simp
    next
      case False
      with versioned_old_iff [OF assms m] show ?thesis by simp
    qed
  qed
next
  let ?ns = "map t_name (all_tables ds)"
  show "set ?ns = {''a_1'', ''a_2'', ''a_10''} \<longrightarrow> (t_old_version t \<longleftrightarrow> t_name t \<noteq> ''a_2'')"
  proof (rule impI)
    assume s: "set ?ns = {''a_1'', ''a_2'', ''a_10''}"
    have nv: "''a'' \<notin> no_version_names ?ns" using s by (simp add: no_version_names_def)
    have fam: "family ''a'' ?ns = {''a_1'', ''a_2'', ''a_10''}"
      using s vm_a by (auto simp: family_def)
    from assms(2) obtain t' where t': "t' \<in> set (snd (version_tables version_init (all_tables ds)))"
      and t: "t = mark_old_table (latest_tables (fst (version_tables version_init (all_tables ds)))) t'"
      by (rule resolved_table)
    have "t_name t' \<in> set ?ns" using t' by (rule versioned_in_names)
    then have "t_name t \<in> {''a_1'', ''a_2'', ''a_10''}" using t s by (simp add: mark_old_table_def)
    then consider "t_name t = ''a_1''" | "t_name t = ''a_2''" | "t_name t = ''a_10''" by blast
    then show "t_old_version t \<longleftrightarrow> t_name t \<noteq> ''a_2''"
    proof cases
      case 1
      with versioned_old_iff [OF assms, of "''a''" "''1''"] vm_a nv fam show ?thesis by simp
    next
      case 2
      with versioned_old_iff [OF assms, of "''a''" "''2''"] vm_a nv fam show ?thesis by simp
    next
      case 3
      with versioned_old_iff [OF assms, of "''a''" "''10''"] vm_a nv fam show ?thesis by simp
    qed
  qed
qed

theorem version_resolution_lexicographic_witness:
  "map t_name (all_tables (resolve_versions (one_dataset [''a_10'', ''a_1'', ''a_2''])))
     = [''a_10'', ''a_1'', ''a_2'']
   \<and> t_old_version (all_tables (resolve_versions (one_dataset [''a_10'', ''a_1'', ''a_2''])) ! 0)
   \<and> t_old_version (all_tables (resolve_versions (one_dataset [''a_10'', ''a_1'', ''a_2''])) ! 1)
   \<and> \<not> t_old_version (all_tables (resolve_versions (one_dataset [''a_10'', ''a_1'', ''a_2''])) ! 2)"
proof -
  let ?ds = "one_dataset [''a_10'', ''a_1'', ''a_2'']"
  let ?r = "all_tables (resolve_versions ?ds)"
  have 1: "\<forall>t \<in> set (all_tables ?ds). \<not> t_old_version t" by code_simp
  have n: "map t_name ?r = [''a_10'', ''a_1'', ''a_2'']" by code_simp
  have s: "set (map t_name (all_tables ?ds)) = {''a_1'', ''a_2'', ''a_10''}"
    by (auto simp: one_dataset_def all_tables_def discovered_def)
  have m: "?r ! 0 \<in> set ?r" "?r ! 1 \<in> set ?r" "?r ! 2 \<in> set ?r" by code_simp+
  have k: "t_name (?r ! 0) = ''a_10''" "t_name (?r ! 1) = ''a_1''" "t_name (?r ! 2) = ''a_2''"
    by code_simp+
  from version_resolution_lexicographic [OF 1 m(1), THEN conjunct2, THEN mp, OF s] k(1)
  have a: "t_old_version (?r ! 0)" by simp
  from version_resolution_lexicographic [OF 1 m(2), THEN conjunct2, THEN mp, OF s] k(2)
  have b: "t_old_version (?r ! 1)" by simp
  from version_resolution_lexicographic [OF 1 m(3), THEN conjunct2, THEN mp, OF s] k(3)
  have c: "\<not> t_old_version (?r ! 2)" by simp
  show ?thesis by (rule conjI [OF n conjI [OF a conjI [OF b c]]])
qed


section \<open>Properties of the field lookup\<close>

lemma find_append:
  "List.find P (xs @ ys) = (case List.find P xs of None \<Rightarrow> List.find P ys | Some x \<Rightarrow> Some x)"
  by (induction xs) auto

lemma find_in_tables_unloaded:
  "List.find (\<lambda>t. t_name t = table_name) ts = Some t \<Longrightarrow> t_fields t = None \<Longrightarrow>
     find_in_tables table_name column ts = Inl TypeError_None_not_iterable"
  by (induction ts) (auto split: if_splits)

lemma find_in_tables_absent:
  "List.find (\<lambda>t. t_name t = table_name) ts = None \<Longrightarrow>
     find_in_tables table_name column ts = Inr None"
  by (induction ts) (auto split: if_splits)

lemma find_field_unloaded:
  "List.find (\<lambda>t. t_name t = table_name) (all_tables ds) = Some t \<Longrightarrow> t_fields t = None \<Longrightarrow>
     find_field ds table_name column = Inl TypeError_None_not_iterable"
proof (induction ds)
  case Nil
  then show ?case by (simp add: all_tables_def)
next
  case (Cons d ds)
  show ?case
  proof (cases "List.find (\<lambda>t. t_name t = table_name) (d_tables d)")
    case None
    with Cons.prems have "List.find (\<lambda>t. t_name t = table_name) (all_tables ds) = Some t"
      by (simp add: all_tables_def find_append)
    with Cons.IH Cons.prems(2) have "find_field ds table_name column = Inl TypeError_None_not_iterable"
      by simp
    with find_in_tables_absent [OF None] show ?thesis by simp
  next
    case (Some u)
    with Cons.prems have "u = t" by (simp add: all_tables_def find_append)
    with Some Cons.prems(2) find_in_tables_unloaded show ?thesis by simp
  qed
qed

lemma find_field_error:
  "find_field ds table_name column = Inl e \<Longrightarrow> e = TypeError_None_not_iterable"
proof (induction ds)
  case Nil
  then show ?case by simp
next
  case (Cons d ds)
  have a: "\<And>ts. find_in_tables table_name column ts = Inl e \<Longrightarrow> e = TypeError_None_not_iterable"
  proof -
    fix ts show "find_in_tables table_name column ts = Inl e \<Longrightarrow> e = TypeError_None_not_iterable"
      by (induction ts) (auto split: if_splits option.splits)
  qed
  from Cons a show ?case by (auto split: sum.splits option.splits)
qed

lemma old_table_unloaded:
  assumes "\<forall>t \<in> set (all_tables ds0). t_fields t = None"
    and "t \<in> set (all_tables (load_datasets show (resolve_versions ds0)))"
    and "t_old_version t"
  shows "t_fields t = None"
proof -
  from assms(2) obtain u where u: "u \<in> set (all_tables (resolve_versions ds0))"
    and t: "t = load_table show u" by (auto simp: all_tables_load)
  from u obtain t' where t': "t' \<in> set (snd (version_tables version_init (all_tables ds0)))"
    and ut: "u = mark_old_table (latest_tables (fst (version_tables version_init (all_tables ds0)))) t'"
    by (rule resolved_table)
  from t' have "t_fields t' \<in> set (map t_fields (snd (version_tables version_init (all_tables ds0))))"
    by simp
  then have "t_fields t' \<in> set (map t_fields (all_tables ds0))" by (simp only: version_tables_same)
  with assms(1) have "t_fields t' = None" by auto
  with ut have "t_fields u = None" by (simp add: mark_old_table_def)
  with t assms(3) show ?thesis by (simp add: load_table_def split: if_splits)
qed


text \<open>
  C10.  After version resolution and schema loading, when the first table named
  \<open>table_name\<close> is an old version, \<open>find_field\<close> does not return \<^verbatim>\<open>None\<close>: it raises
  the \<^verbatim>\<open>TypeError\<close> of iterating \<^verbatim>\<open>None\<close>, because the fields of an old table were
  never loaded.  A join that refers to such a table from its first side therefore ends
  the run with that error, not with the \<^verbatim>\<open>fields not found\<close> error of line 268.
\<close>

theorem old_table_reference_not_iterable:
  assumes "\<forall>t \<in> set (all_tables ds0). t_fields t = None"
    and "ds = load_datasets show (resolve_versions ds0)"
    and "List.find (\<lambda>t. t_name t = table_name) (all_tables ds) = Some t"
    and "t_old_version t"
  shows "find_field ds table_name column = Inl TypeError_None_not_iterable
     \<and> (\<forall>(ev::env) join_name g (st::pair_state) i j first_table second_table second_column.
          e_datasets ev = ds \<and> j \<noteq> i
          \<and> split_bar (g ! i) = Inr (first_table, column)
          \<and> split_bar (g ! j) = Inr (second_table, second_column)
          \<and> (startswith_plus first_table \<or> startswith_plus second_table)
          \<and> lstrip_plus first_table = table_name
          \<and> table_name @ column @ lstrip_plus second_table @ second_column \<notin> set (join_done st)
          \<and> \<not> (table_name = lstrip_plus second_table \<and> column = second_column)
        \<longrightarrow> pair_body ev join_name g st i j = Inl TypeError_None_not_iterable)"
proof (intro conjI allI impI)
  from assms(3) have "t \<in> set (all_tables ds)" by (auto simp: find_Some_iff)
  with assms(1,2,4) have "t_fields t = None" using old_table_unloaded by blast
  with assms(3) show ff: "find_field ds table_name column = Inl TypeError_None_not_iterable"
    by (rule find_field_unloaded)
  fix ev :: env and join_name g and st :: pair_state and i j first_table second_table second_column
  assume a: "e_datasets ev = ds \<and> j \<noteq> i
          \<and> split_bar (g ! i) = Inr (first_table, column)
          \<and> split_bar (g ! j) = Inr (second_table, second_column)
          \<and> (startswith_plus first_table \<or> startswith_plus second_table)
          \<and> lstrip_plus first_table = table_name
          \<and> table_name @ column @ lstrip_plus second_table @ second_column \<notin> set (join_done st)
          \<and> \<not> (table_name = lstrip_plus second_table \<and> column = second_column)"
  with ff show "pair_body ev join_name g st i j = Inl TypeError_None_not_iterable"
    by (auto simp: pair_body_def Let_def)
qed

theorem old_table_reference_not_iterable_witness:
  "find_field (e_datasets old_env) ''p_1'' ''c'' = Inl TypeError_None_not_iterable
   \<and> pair_body old_env ''g'' [''+p_1|c'', ''p_2|c''] \<lparr>join_done = [], joins = []\<rparr> 0 1
       = Inl TypeError_None_not_iterable
   \<and> enumerate_joins old_env [(''g'', [''+p_1|c'', ''p_2|c''])] = Inl TypeError_None_not_iterable
   \<and> enumerate_joins old_env [(''g'', [''+p_2|c'', ''p_2|zz''])] = Inl TypeError_fields_not_found"
proof -
  let ?disc = "one_dataset [''p_1'', ''p_2'']"
  let ?ds = "load_datasets one_column (resolve_versions ?disc)"
  let ?t = "all_tables ?ds ! 0"
  have 1: "\<forall>t \<in> set (all_tables ?disc). t_fields t = None" by code_simp
  have 3: "List.find (\<lambda>t. t_name t = ''p_1'') (all_tables ?ds) = Some ?t" by code_simp
  have 4: "t_old_version ?t" by code_simp
  note th = old_table_reference_not_iterable [OF 1 refl 3 4, of "''c''"]
  have e: "e_datasets old_env = ?ds" by (simp add: old_env_def)
  have s: "split_bar ([''+p_1|c'', ''p_2|c''] ! 0) = Inr (''+p_1'', ''c'')"
    "split_bar ([''+p_1|c'', ''p_2|c''] ! 1) = Inr (''p_2'', ''c'')"
    by (simp_all add: split_bar_def unpack2_def)
  from th have a: "find_field (e_datasets old_env) ''p_1'' ''c'' = Inl TypeError_None_not_iterable"
    using e by simp
  from th have b: "pair_body old_env ''g'' [''+p_1|c'', ''p_2|c''] \<lparr>join_done = [], joins = []\<rparr> 0 1
       = Inl TypeError_None_not_iterable"
    using e s by (simp add: startswith_plus_def lstrip_plus_def)
  have c: "enumerate_joins old_env [(''g'', [''+p_1|c'', ''p_2|c''])] = Inl TypeError_None_not_iterable"
    by code_simp
  have d: "enumerate_joins old_env [(''g'', [''+p_2|c'', ''p_2|zz''])] = Inl TypeError_fields_not_found"
    by code_simp
  from a b c d show ?thesis by simp
qed

section \<open>Properties of wildcard expansion\<close>

lemma expand_loop_entries:
  "i \<le> length g \<Longrightarrow>
     expand_loop ds i g =
       (case expand_entries ds (drop i g) of Inl x \<Rightarrow> Inl x | Inr r \<Rightarrow> Inr (take i g @ r))"
proof (induction ds i g rule: expand_loop.induct)
  case (1 ds i g)
  show ?case
  proof (cases "i < length g")
    case False
    with "1.prems" show ?thesis by (subst expand_loop.simps) simp
  next
    case True
    then have dr: "drop i g = g ! i # drop (Suc i) g" by (simp add: Cons_nth_drop_Suc)
    show ?thesis
    proof (cases "CHR ''*'' \<notin> set (g ! i)")
      case lit: True
      from True have tk: "take (Suc i) g = take i g @ [g ! i]" by (simp add: take_Suc_conv_app_nth)
      from "1.IH"(1) [OF True lit] True
      have "expand_loop ds (i + 1) g =
        (case expand_entries ds (drop (i + 1) g) of Inl x \<Rightarrow> Inl x | Inr r \<Rightarrow> Inr (take (i + 1) g @ r))"
        by simp
      with True lit dr tk show ?thesis
        by (subst expand_loop.simps) (simp split: sum.splits)
    next
      case wild: False
      show ?thesis
      proof (cases "split_bar (g ! i)")
        case (Inl x)
        with True wild dr show ?thesis by (subst expand_loop.simps) simp
      next
        case (Inr tc)
        obtain tf cf where tc: "tc = (tf, cf)" by (cases tc)
        show ?thesis
        proof (cases "match_datasets tf cf ds")
          case (Inl x)
          with True wild dr Inr tc show ?thesis by (subst expand_loop.simps) simp
        next
          case ms: (Inr ms)
          let ?g' = "take i g @ ms @ drop (Suc i) g"
          have le: "i + length ms \<le> length ?g'" using True by simp
          have d': "drop (i + length ms) ?g' = drop (Suc i) g" using True by simp
          have t': "take (i + length ms) ?g' = take i g @ ms" using True by simp
          from "1.IH"(2) [OF True wild Inr [unfolded tc] refl ms le]
          have "expand_loop ds (i + length ms) ?g' =
            (case expand_entries ds (drop (Suc i) g) of Inl x \<Rightarrow> Inl x
             | Inr r \<Rightarrow> Inr (take i g @ ms @ r))"
            by (simp only: d' t' append_assoc)
          with True wild dr Inr tc ms show ?thesis
            by (subst expand_loop.simps) (simp split: sum.splits)
        qed
      qed
    qed
  qed
qed

lemma expand_group_entries: "expand_group ds g = expand_entries ds g"
  using expand_loop_entries [of 0 g ds] by (simp add: expand_group_def split: sum.splits)

lemma expand_entries_literal:
  "\<forall>p \<in> set pre. CHR ''*'' \<notin> set p \<Longrightarrow>
     expand_entries ds (pre @ es) =
       (case expand_entries ds es of Inl x \<Rightarrow> Inl x | Inr r \<Rightarrow> Inr (pre @ r))"
  by (induction pre) (auto split: sum.splits)

lemma expand_entries_fails:
  "expand_entries ds es = Inl x \<Longrightarrow> \<exists>y. expand_entries ds (pre @ es) = Inl y"
  by (induction pre) (auto split: sum.splits)


lemma open_groups_Rep: "open_groups (Rep a q # acc) = open_groups acc"
  by (simp add: open_groups_def)

lemma parse_plain:
  "plain_format fmt \<Longrightarrow> open_groups acc = 0 \<Longrightarrow>
     rx_parse (star_to_dotstar fmt) acc = Inr (rev acc @ glob_items fmt)"
proof (induction fmt arbitrary: acc)
  case Nil
  then show ?case by simp
next
  case (Cons c cs)
  from Cons.prems(1) have pc: "plain_format cs" and c: "c \<notin> set special_chars"
    by (simp_all add: plain_format_def)
  show ?case
  proof (cases "c = CHR ''*''")
    case True
    have "rx_parse (star_to_dotstar (c # cs)) acc = rx_parse (star_to_dotstar cs) (Rep AnyChar Star # acc)"
      using True by (simp add: quant_of_def)
    also have "\<dots> = Inr (rev (Rep AnyChar Star # acc) @ glob_items cs)"
      using pc Cons.prems(2) by (intro Cons.IH) (simp_all add: open_groups_Rep)
    finally show ?thesis using True by simp
  next
    case nstar: False
    show ?thesis
    proof (cases "c = CHR ''.''")
      case True
      have "rx_parse (star_to_dotstar (c # cs)) acc = rx_parse (star_to_dotstar cs) (Rep AnyChar One # acc)"
        using True by simp
      also have "\<dots> = Inr (rev (Rep AnyChar One # acc) @ glob_items cs)"
        using pc Cons.prems(2) by (intro Cons.IH) (simp_all add: open_groups_Rep)
      finally show ?thesis using True by simp
    next
      case False
      have "rx_parse (star_to_dotstar (c # cs)) acc = rx_parse (star_to_dotstar cs) (Rep (Lit c) One # acc)"
        using False nstar c by (simp add: special_chars_def)
      also have "\<dots> = Inr (rev (Rep (Lit c) One # acc) @ glob_items cs)"
        using pc Cons.prems(2) by (intro Cons.IH) (simp_all add: open_groups_Rep)
      finally show ?thesis using False nstar by simp
    qed
  qed
qed

lemma run_any_star_iff:
  "rx_run (Rep AnyChar Star # r) s n \<noteq> None \<longleftrightarrow>
     (\<exists>k \<le> length s. CHR 0x0A \<notin> set (take k s) \<and> rx_run r (drop k s) (n + k) \<noteq> None)"
proof (induction s arbitrary: n)
  case Nil
  show ?case by simp
next
  case (Cons c cs)
  show ?case
  proof (cases "c = CHR 0x0A")
    case True
    have "(\<exists>k \<le> length (c # cs). CHR 0x0A \<notin> set (take k (c # cs)) \<and> rx_run r (drop k (c # cs)) (n + k) \<noteq> None)
       \<longleftrightarrow> rx_run r (c # cs) n \<noteq> None"
    proof
      assume "\<exists>k \<le> length (c # cs). CHR 0x0A \<notin> set (take k (c # cs)) \<and> rx_run r (drop k (c # cs)) (n + k) \<noteq> None"
      then obtain k where k: "CHR 0x0A \<notin> set (take k (c # cs))" "rx_run r (drop k (c # cs)) (n + k) \<noteq> None"
        by blast
      from k(1) True have "k = 0" by (cases k) auto
      with k(2) show "rx_run r (c # cs) n \<noteq> None" by simp
    next
      assume "rx_run r (c # cs) n \<noteq> None"
      then show "\<exists>k \<le> length (c # cs). CHR 0x0A \<notin> set (take k (c # cs)) \<and> rx_run r (drop k (c # cs)) (n + k) \<noteq> None"
        by (intro exI [of _ 0]) simp
    qed
    with True show ?thesis by simp
  next
    case False
    have "rx_run (Rep AnyChar Star # r) (c # cs) n \<noteq> None \<longleftrightarrow>
            rx_run (Rep AnyChar Star # r) cs (Suc n) \<noteq> None \<or> rx_run r (c # cs) n \<noteq> None"
      using False by (auto split: option.splits)
    also have "\<dots> \<longleftrightarrow> (\<exists>k \<le> length cs. CHR 0x0A \<notin> set (take k cs) \<and> rx_run r (drop k cs) (Suc n + k) \<noteq> None)
                    \<or> rx_run r (c # cs) n \<noteq> None"
      by (simp only: Cons.IH)
    also have "\<dots> \<longleftrightarrow> (\<exists>k \<le> length (c # cs). CHR 0x0A \<notin> set (take k (c # cs)) \<and> rx_run r (drop k (c # cs)) (n + k) \<noteq> None)"
    proof
      assume "(\<exists>k \<le> length cs. CHR 0x0A \<notin> set (take k cs) \<and> rx_run r (drop k cs) (Suc n + k) \<noteq> None)
                    \<or> rx_run r (c # cs) n \<noteq> None"
      then show "\<exists>k \<le> length (c # cs). CHR 0x0A \<notin> set (take k (c # cs)) \<and> rx_run r (drop k (c # cs)) (n + k) \<noteq> None"
      proof
        assume "\<exists>k \<le> length cs. CHR 0x0A \<notin> set (take k cs) \<and> rx_run r (drop k cs) (Suc n + k) \<noteq> None"
        then obtain k where "k \<le> length cs" "CHR 0x0A \<notin> set (take k cs)" "rx_run r (drop k cs) (Suc n + k) \<noteq> None"
          by blast
        with False show ?thesis by (intro exI [of _ "Suc k"]) simp
      next
        assume "rx_run r (c # cs) n \<noteq> None"
        then show ?thesis by (intro exI [of _ 0]) simp
      qed
    next
      assume "\<exists>k \<le> length (c # cs). CHR 0x0A \<notin> set (take k (c # cs)) \<and> rx_run r (drop k (c # cs)) (n + k) \<noteq> None"
      then obtain k where k: "k \<le> length (c # cs)" "CHR 0x0A \<notin> set (take k (c # cs))"
        "rx_run r (drop k (c # cs)) (n + k) \<noteq> None" by blast
      show "(\<exists>k \<le> length cs. CHR 0x0A \<notin> set (take k cs) \<and> rx_run r (drop k cs) (Suc n + k) \<noteq> None)
                    \<or> rx_run r (c # cs) n \<noteq> None"
      proof (cases k)
        case 0
        with k(3) show ?thesis by simp
      next
        case (Suc j)
        with k have "j \<le> length cs" "CHR 0x0A \<notin> set (take j cs)" "rx_run r (drop j cs) (Suc n + j) \<noteq> None"
          by simp_all
        then show ?thesis by blast
      qed
    qed
    finally show ?thesis .
  qed
qed

lemma run_glob: "rx_run (glob_items fmt) s n \<noteq> None \<longleftrightarrow> glob fmt s"
proof (induction fmt arbitrary: s n)
  case Nil
  show ?case by simp
next
  case (Cons p ps)
  show ?case
  proof (cases "p = CHR ''*''")
    case True
    have "rx_run (glob_items (p # ps)) s n \<noteq> None
        \<longleftrightarrow> rx_run (Rep AnyChar Star # glob_items ps) s n \<noteq> None"
      using True by simp
    also have "\<dots> \<longleftrightarrow> (\<exists>k \<le> length s. CHR 0x0A \<notin> set (take k s)
                              \<and> rx_run (glob_items ps) (drop k s) (n + k) \<noteq> None)"
      by (rule run_any_star_iff)
    also have "\<dots> \<longleftrightarrow> (\<exists>k \<le> length s. CHR 0x0A \<notin> set (take k s) \<and> glob ps (drop k s))"
      by (simp only: Cons.IH)
    also have "\<dots> \<longleftrightarrow> (\<exists>k \<in> set [0 ..< Suc (length s)]. CHR 0x0A \<notin> set (take k s) \<and> glob ps (drop k s))"
      by (metis atLeastLessThan_iff le0 less_Suc_eq_le set_upt)
    also have "\<dots> \<longleftrightarrow> glob (p # ps) s"
      using True by (simp only: glob.simps refl if_True)
    finally show ?thesis .
  next
    case False
    with Cons.IH show ?thesis by (cases s) auto
  qed
qed

lemma wild_match_plain: "plain_format fmt \<Longrightarrow> wild_match fmt name = Inr (glob fmt name)"
  using run_glob [of fmt name 0]
  by (simp add: wild_match_def re_match_def parse_plain open_groups_def)

lemma match_fields_plain:
  "plain_format column_fmt \<Longrightarrow>
     match_fields column_fmt tname fs =
       Inr (map (\<lambda>f. tname @ ''|'' @ f_name f) (filter (\<lambda>f. glob column_fmt (f_name f)) fs))"
  by (induction fs) (simp_all add: wild_match_plain)

lemma match_tables_plain:
  assumes "plain_format table_fmt" and "plain_format column_fmt"
    and "\<forall>t \<in> set ts. \<not> t_old_version t \<longrightarrow> t_fields t \<noteq> None"
  shows "match_tables table_fmt column_fmt ts =
       Inr (concat (map (\<lambda>t. if \<not> t_old_version t \<and> glob table_fmt (t_name t)
                       then map (\<lambda>f. t_name t @ ''|'' @ f_name f)
                              (filter (\<lambda>f. glob column_fmt (f_name f)) (fields_of t))
                       else []) ts))"
  using assms(3)
  by (induction ts)
     (auto simp: wild_match_plain [OF assms(1)] match_fields_plain [OF assms(2)] fields_of_def)

lemma match_datasets_plain:
  assumes "plain_format table_fmt" and "plain_format column_fmt"
    and "\<forall>t \<in> set (all_tables ds). \<not> t_old_version t \<longrightarrow> t_fields t \<noteq> None"
  shows "match_datasets table_fmt column_fmt ds = Inr (expected_matches table_fmt column_fmt ds)"
  using assms(3)
proof (induction ds)
  case Nil
  show ?case by (simp add: expected_matches_def all_tables_def)
next
  case (Cons d ds)
  from Cons.prems have a: "\<forall>t \<in> set (d_tables d). \<not> t_old_version t \<longrightarrow> t_fields t \<noteq> None"
    and b: "\<forall>t \<in> set (all_tables ds). \<not> t_old_version t \<longrightarrow> t_fields t \<noteq> None"
    by (simp_all add: all_tables_def)
  from Cons.IH [OF b] match_tables_plain [OF assms(1,2) a] show ?case
    by (simp add: expected_matches_def all_tables_def)
qed


text \<open>
  C6, as first stated: with the fields \<open>col1\<close> and \<open>col2\<close> of the table \<open>x\<close> and
  \<open>col1\<close> of the table \<open>y\<close>, the entry \<^verbatim>\<open>x.*|col*\<close> expands to \<open>x|col1\<close> and
  \<open>x|col2\<close>.  It expands to nothing: the table format becomes the regular expression
  \<^verbatim>\<open>x..*\<close>, whose first dot needs a character after the \<open>x\<close>, and the name \<open>x\<close>
  has none.
\<close>

theorem dot_star_pattern_misses_table_x:
  "expand_group xy_datasets [''x.*|col*''] = Inr []
   \<and> expand_group xy_datasets [''x.*|col*''] \<noteq> Inr [''x|col1'', ''x|col2'']"
  by code_simp

text \<open>
  C6, amended.  An entry with a wildcard whose two formats are plain is replaced, where
  it stands, by the references \<open>table|column\<close> of every table that is not an old version
  and every field of it whose names match the formats as prefixes (\<^verbatim>\<open>*\<close> any sequence,
  \<^verbatim>\<open>.\<close> any one character), in the order of the tables and of their fields; the
  entries before it stay and the entries after it are expanded in turn.  With the
  tables \<open>x\<close> and \<open>y\<close> above, the entry \<^verbatim>\<open>x*|col*\<close> expands to \<open>x|col1\<close>, \<open>x|col2\<close>.
\<close>

theorem wildcard_expansion_in_place:
  assumes "\<forall>p \<in> set pre. CHR ''*'' \<notin> set p"
    and "CHR ''*'' \<in> set e"
    and "split_bar e = Inr (table_fmt, column_fmt)"
    and "plain_format table_fmt" and "plain_format column_fmt"
    and "\<forall>t \<in> set (all_tables ds). \<not> t_old_version t \<longrightarrow> t_fields t \<noteq> None"
  shows "expand_group ds (pre @ e # post) =
           (case expand_group ds post of
              Inl x \<Rightarrow> Inl x
            | Inr post' \<Rightarrow> Inr (pre @ expected_matches table_fmt column_fmt ds @ post'))"
proof -
  from assms(2,3) match_datasets_plain [OF assms(4,5,6)]
  have "expand_entries ds (e # post) =
          (case expand_entries ds post of
             Inl x \<Rightarrow> Inl x
           | Inr r \<Rightarrow> Inr (expected_matches table_fmt column_fmt ds @ r))"
    by simp
  with expand_entries_literal [OF assms(1), of ds "e # post"] show ?thesis
    by (simp add: expand_group_entries split: sum.splits)
qed

theorem wildcard_expansion_in_place_witness:
  "expand_group xy_datasets [''a|b'', ''x*|col*'', ''c|d''] = Inr [''a|b'', ''x|col1'', ''x|col2'', ''c|d'']
   \<and> expected_matches ''x*'' ''col*'' xy_datasets = [''x|col1'', ''x|col2'']
   \<and> expand_group xy_datasets [''x*|col*''] = Inr [''x|col1'', ''x|col2'']"
proof -
  have 1: "\<forall>p \<in> set [''a|b'']. CHR ''*'' \<notin> set p" by simp
  have 2: "CHR ''*'' \<in> set ''x*|col*''" by simp
  have 3: "split_bar ''x*|col*'' = Inr (''x*'', ''col*'')" by (simp add: split_bar_def unpack2_def)
  have 4: "plain_format ''x*''" "plain_format ''col*''" by (simp_all add: plain_format_def special_chars_def)
  have 6: "\<forall>t \<in> set (all_tables xy_datasets). \<not> t_old_version t \<longrightarrow> t_fields t \<noteq> None" by code_simp
  have 7: "expected_matches ''x*'' ''col*'' xy_datasets = [''x|col1'', ''x|col2'']" by code_simp
  have 8: "expand_group xy_datasets [''c|d''] = Inr [''c|d'']" by code_simp
  have 9: "expand_group xy_datasets [] = Inr []" by code_simp
  from wildcard_expansion_in_place [OF 1 2 3 4 6, of "[''c|d'']"]
    wildcard_expansion_in_place [OF _ 2 3 4 6, of "[]" "[]"] 7 8 9
  show ?thesis by simp
qed

lemma parse_plus_first: "rx_parse (CHR ''+'' # s) [] = Inl Re_error"
  by simp

lemma wild_match_plus_first: "wild_match (CHR ''+'' # fmt) name = Inl Re_error"
  by (simp add: wild_match_def re_match_def)

lemma match_tables_plus_first:
  "ts \<noteq> [] \<Longrightarrow> match_tables (CHR ''+'' # table_fmt) column_fmt ts = Inl Re_error"
  by (cases ts) (simp_all add: wild_match_plus_first)

lemma match_datasets_plus_first:
  "all_tables ds \<noteq> [] \<Longrightarrow> match_datasets (CHR ''+'' # table_fmt) column_fmt ds = Inl Re_error"
proof (induction ds)
  case Nil
  then show ?case by (simp add: all_tables_def)
next
  case (Cons d ds)
  show ?case
  proof (cases "d_tables d")
    case Nil
    with Cons show ?thesis by (simp add: all_tables_def)
  next
    case (Cons t ts)
    then have "d_tables d \<noteq> []" by simp
    from match_tables_plus_first [OF this] show ?thesis by simp
  qed
qed

text \<open>
  C8.  The claim is that an entry with the required marker and a wildcard, such as
  \<^verbatim>\<open>+x*|col*\<close>, is expanded like any other wildcard entry.  In the code the marker is
  still in the table format when it is handed to \<^verbatim>\<open>re.match\<close>, and a pattern that
  begins with \<^verbatim>\<open>+\<close> is an error (nothing to repeat): as soon as one table has been
  discovered, the run ends there.  The pairing loop strips the marker before it uses
  the table name; the expansion loop does not.
\<close>

theorem required_wildcard_entry_raises:
  assumes "all_tables ds \<noteq> []" and "CHR ''*'' \<in> set e"
    and "split_bar e = Inr (CHR ''+'' # table_fmt, column_fmt)"
  shows "(\<exists>err. expand_group ds (pre @ e # post) = Inl err)
       \<and> ((\<forall>p \<in> set pre. CHR ''*'' \<notin> set p) \<longrightarrow> expand_group ds (pre @ e # post) = Inl Re_error)"
proof -
  from assms(2,3) match_datasets_plus_first [OF assms(1)]
  have e: "expand_entries ds (e # post) = Inl Re_error" by simp
  from expand_entries_fails [OF e] have "\<exists>err. expand_entries ds (pre @ e # post) = Inl err" .
  moreover have "(\<forall>p \<in> set pre. CHR ''*'' \<notin> set p) \<longrightarrow> expand_entries ds (pre @ e # post) = Inl Re_error"
    using e by (simp add: expand_entries_literal)
  ultimately show ?thesis by (simp add: expand_group_entries)
qed

theorem required_wildcard_entry_raises_witness:
  "expand_group xy_datasets [''+x*|col*''] = Inl Re_error
   \<and> expand_group xy_datasets [''a|b'', ''+x*|col*'', ''c|d''] = Inl Re_error"
proof -
  have 1: "all_tables xy_datasets \<noteq> []" by code_simp
  have 2: "CHR ''*'' \<in> set ''+x*|col*''" by simp
  have 3: "split_bar ''+x*|col*'' = Inr (CHR ''+'' # ''x*'', ''col*'')"
    by (simp add: split_bar_def unpack2_def)
  from required_wildcard_entry_raises [OF 1 2 3, of "[]" "[]"]
    required_wildcard_entry_raises [OF 1 2 3, of "[''a|b'']" "[''c|d'']"]
  show ?thesis by simp
qed

section \<open>Properties of the enumeration of joins\<close>






















end
